theory Spec2Isabelle
  imports Main "HOL-Library.AList" "HOL-Library.Sublist" "HOL-Library.Char_ord"
    "HOL-Library.List_Lexorder"
begin

section \<open>Paths, queries and query keys\<close>

text \<open>
  A path is the sequence of its child keys; the empty sequence is the root.
\<close>

type_synonym path = "string list"

text \<open>
  What the code can throw: the five assertions (named by what they refuse), the throw
  of \<^verbatim>\<open>Path.relativePath\<close>, and a read through \<^verbatim>\<open>null\<close>.
\<close>

datatype error =
  BadQueryKey
  | ViewDoesNotExistButWeHaveATag
  | QueryShadowed
  | MissingSyncPoint
  | NonexistentWriteId
  | NotWithinOuterPath
  | NullDereference

text \<open>
  Modelled from the spec: \<^verbatim>\<open>Path.toString\<close> and the \<^verbatim>\<open>Path\<close> constructor from a
  string, which \<^verbatim>\<open>SyncTree.js\<close> calls and src/ does not hold. The string form writes
  \<^verbatim>\<open>/key\<close> for every non-empty key and \<^verbatim>\<open>/\<close> for the root; the constructor splits
  at \<^verbatim>\<open>/\<close> and drops the empty pieces.
\<close>

definition pathToString :: "path \<Rightarrow> string" where
  "pathToString p =
     (let pathString = concat (map (\<lambda>k. if k = [] then [] else CHR ''/'' # k) p)
      in if pathString = [] then ''/'' else pathString)"

fun splitOn :: "char \<Rightarrow> string \<Rightarrow> string list" where
  "splitOn c [] = [[]]"
| "splitOn c (x # xs) =
     (if x = c then [] # splitOn c xs
      else (x # hd (splitOn c xs)) # tl (splitOn c xs))"

definition pathFromString :: "string \<Rightarrow> path" where
  "pathFromString s = filter (\<lambda>piece. piece \<noteq> []) (splitOn (CHR ''/'') s)"

text \<open>
  Modelled from the spec: \<^verbatim>\<open>Path.relativePath(outer, inner)\<close>, absent from src/. It is
  the rest of \<open>inner\<close> below \<open>outer\<close> and throws when \<open>outer\<close> is not an
  ancestor of \<open>inner\<close>.
\<close>

fun relativePath :: "path \<Rightarrow> path \<Rightarrow> error + path" where
  "relativePath [] inner = Inr inner"
| "relativePath (k # outer) [] = Inl NotWithinOuterPath"
| "relativePath (k # outer) (k' # inner) =
     (if k = k' then relativePath outer inner
      else Inl NotWithinOuterPath)"

text \<open>
  Modelled from the spec: the external value type \<^verbatim>\<open>Query\<close>: its path, its query
  identifier and the two flags of its query parameters. \<^verbatim>\<open>getRef\<close> is the default
  query at the same path.
\<close>

record query =
  qpath :: path
  queryIdentifier :: string
  loadsAllData :: bool
  isDefault :: bool

definition getRef :: "query \<Rightarrow> query" where
  "getRef q = \<lparr>qpath = qpath q, queryIdentifier = ''default'', loadsAllData = True,
     isDefault = True\<rparr>"

text \<open>\<^verbatim>\<open>makeQueryKey_\<close>: the path's string form, a dollar sign, the query identifier.\<close>

definition makeQueryKey :: "query \<Rightarrow> string" where
  "makeQueryKey q = pathToString (qpath q) @ ''$'' @ queryIdentifier q"

text \<open>\<^verbatim>\<open>String.indexOf\<close> of one character: \<open>-1\<close> when it does not occur.\<close>

definition indexOf :: "char \<Rightarrow> string \<Rightarrow> int" where
  "indexOf c s = (if c \<in> set s then int (length (takeWhile (\<lambda>x. x \<noteq> c) s)) else - 1)"

text \<open>
  \<^verbatim>\<open>parseQueryKey_\<close>: split at the first dollar sign; the assertion refuses a key with
  no dollar sign or with nothing after the first one. The result is the pair of the path
  and the query identifier.
\<close>

definition parseQueryKey :: "string \<Rightarrow> error + (path \<times> string)" where
  "parseQueryKey queryKey =
     (let splitIndex = indexOf (CHR ''$'') queryKey
      in if \<not> (splitIndex \<noteq> - 1 \<and> splitIndex < int (length queryKey) - 1)
         then Inl BadQueryKey
         else Inr (pathFromString (take (nat splitIndex) queryKey),
                   drop (nat (splitIndex + 1)) queryKey))"

text \<open>The keys for which the string form of a path can be read back.\<close>

definition plainKey :: "string \<Rightarrow> bool" where
  "plainKey k = (k \<noteq> [] \<and> CHR ''/'' \<notin> set k \<and> CHR ''$'' \<notin> set k)"

section \<open>The path-keyed tree\<close>

text \<open>
  Modelled from the spec: \<^verbatim>\<open>ImmutableTree\<close>, absent from src/: a node holds an optional
  value and its children, a map from child keys to subtrees kept in key order. The child
  map is the list of its entries in the order of its traversal; a lookup reads the first
  entry with the key, an insertion puts the entry at its place in key order, a removal
  drops the entries with the key.
\<close>

datatype 'a tree = Tree (tvalue: "'a option") (tchildren: "(string \<times> 'a tree) list")

definition Empty :: "'a tree" where
  "Empty = Tree None []"

definition isEmpty :: "'a tree \<Rightarrow> bool" where
  "isEmpty t = (tvalue t = None \<and> tchildren t = [])"

fun childInsert :: "string \<Rightarrow> 'b \<Rightarrow> (string \<times> 'b) list \<Rightarrow> (string \<times> 'b) list" where
  "childInsert k v [] = [(k, v)]"
| "childInsert k v ((k', v') # cs) =
     (if k = k' then (k, v) # cs
      else if k < k' then (k, v) # (k', v') # cs
      else (k', v') # childInsert k v cs)"

definition childRemove :: "string \<Rightarrow> (string \<times> 'b) list \<Rightarrow> (string \<times> 'b) list" where
  "childRemove k cs = filter (\<lambda>kc. fst kc \<noteq> k) cs"

text \<open>\<^verbatim>\<open>get(path)\<close>: the value at the path, if any.\<close>

fun tget :: "path \<Rightarrow> 'a tree \<Rightarrow> 'a option" where
  "tget [] t = tvalue t"
| "tget (front # rest) t =
     (case map_of (tchildren t) front of
        None \<Rightarrow> None
      | Some child \<Rightarrow> tget rest child)"

text \<open>\<^verbatim>\<open>set(path, value)\<close>: the tree with the value at the path.\<close>

fun tset :: "path \<Rightarrow> 'a \<Rightarrow> 'a tree \<Rightarrow> 'a tree" where
  "tset [] toSet t = Tree (Some toSet) (tchildren t)"
| "tset (front # rest) toSet t =
     (let child = (case map_of (tchildren t) front of None \<Rightarrow> Empty | Some c \<Rightarrow> c);
          newChild = tset rest toSet child
      in Tree (tvalue t) (childInsert front newChild (tchildren t)))"

text \<open>
  \<^verbatim>\<open>remove(path)\<close>: the tree without the value at the path; a child left empty is dropped.
\<close>

fun tremove :: "path \<Rightarrow> 'a tree \<Rightarrow> 'a tree" where
  "tremove [] t = (if tchildren t = [] then Empty else Tree None (tchildren t))"
| "tremove (front # rest) t =
     (case map_of (tchildren t) front of
        None \<Rightarrow> t
      | Some child \<Rightarrow>
          (let newChild = tremove rest child;
               newChildren = (if isEmpty newChild then childRemove front (tchildren t)
                              else childInsert front newChild (tchildren t))
           in if tvalue t = None \<and> newChildren = [] then Empty
              else Tree (tvalue t) newChildren))"

text \<open>\<^verbatim>\<open>subtree(path)\<close>: the tree below the path, empty when the path leaves the tree.\<close>

fun subtree :: "path \<Rightarrow> 'a tree \<Rightarrow> 'a tree" where
  "subtree [] t = t"
| "subtree (front # rest) t =
     (case map_of (tchildren t) front of
        None \<Rightarrow> Empty
      | Some child \<Rightarrow> subtree rest child)"

text \<open>
  \<^verbatim>\<open>foreachOnPath(path, f)\<close> calls \<open>f\<close> for each strict ancestor of the path that
  holds a value, root first; the model lists the calls' arguments.
\<close>

fun foreachOnPath' :: "path \<Rightarrow> path \<Rightarrow> 'a tree \<Rightarrow> (path \<times> 'a) list" where
  "foreachOnPath' [] currentRelativePath t = []"
| "foreachOnPath' (front # rest) currentRelativePath t =
     (case tvalue t of None \<Rightarrow> [] | Some v \<Rightarrow> [(currentRelativePath, v)]) @
     (case map_of (tchildren t) front of
        None \<Rightarrow> []
      | Some nextChild \<Rightarrow> foreachOnPath' rest (currentRelativePath @ [front]) nextChild)"

definition foreachOnPath :: "path \<Rightarrow> 'a tree \<Rightarrow> (path \<times> 'a) list" where
  "foreachOnPath p t = foreachOnPath' p [] t"

text \<open>
  \<^verbatim>\<open>findOnPath(path, f)\<close>: the first result of \<open>f\<close> that is not \<^verbatim>\<open>null\<close> or
  \<^verbatim>\<open>false\<close>, walking from the root to the path, the node at the path included.
\<close>

fun findOnPath' :: "path \<Rightarrow> path \<Rightarrow> (path \<Rightarrow> 'a \<Rightarrow> 'b option) \<Rightarrow> 'a tree \<Rightarrow> 'b option" where
  "findOnPath' [] pathSoFar f t = (case tvalue t of None \<Rightarrow> None | Some v \<Rightarrow> f pathSoFar v)"
| "findOnPath' (front # rest) pathSoFar f t =
     (case (case tvalue t of None \<Rightarrow> None | Some v \<Rightarrow> f pathSoFar v) of
        Some result \<Rightarrow> Some result
      | None \<Rightarrow>
          (case map_of (tchildren t) front of
             None \<Rightarrow> None
           | Some nextChild \<Rightarrow> findOnPath' rest (pathSoFar @ [front]) f nextChild))"

definition findOnPath :: "path \<Rightarrow> (path \<Rightarrow> 'a \<Rightarrow> 'b option) \<Rightarrow> 'a tree \<Rightarrow> 'b option" where
  "findOnPath p f t = findOnPath' p [] f t"

text \<open>
  \<^verbatim>\<open>foreachChild(f)\<close> calls \<open>f\<close> for each child that holds a value, in key order.
\<close>

definition foreachChild :: "'a tree \<Rightarrow> (string \<times> 'a) list" where
  "foreachChild t =
     concat (map (\<lambda>kc. case tvalue (snd kc) of None \<Rightarrow> [] | Some v \<Rightarrow> [(fst kc, v)])
       (tchildren t))"

text \<open>
  \<^verbatim>\<open>fold(f)\<close>: bottom-up, \<open>f\<close> gets the path so far, the value and the children's
  results by key.
\<close>

fun fold' :: "path \<Rightarrow> (path \<Rightarrow> 'a option \<Rightarrow> (string \<times> 'b) list \<Rightarrow> 'b) \<Rightarrow> 'a tree \<Rightarrow> 'b" where
  "fold' pathSoFar f (Tree v cs) =
     f pathSoFar v (map (\<lambda>(childKey, childTree). (childKey, fold' (pathSoFar @ [childKey]) f childTree)) cs)"

definition tfold :: "(path \<Rightarrow> 'a option \<Rightarrow> (string \<times> 'b) list \<Rightarrow> 'b) \<Rightarrow> 'a tree \<Rightarrow> 'b" where
  "tfold f t = fold' [] f t"

text \<open>\<^verbatim>\<open>fromObject(obj)\<close>: the tree with each property's value at the property's path.\<close>

definition fromObject :: "(string \<times> 'a) list \<Rightarrow> 'a tree" where
  "fromObject obj = foldl (\<lambda>t (childPath, childSnap). tset (pathFromString childPath) childSnap t) Empty obj"

text \<open>A child map has each key once; so has every child map below.\<close>

fun distinctKeys :: "'a tree \<Rightarrow> bool" where
  "distinctKeys (Tree v cs) =
     (distinct (map fst cs) \<and> list_all (\<lambda>kc. distinctKeys (snd kc)) cs)"

text \<open>
  The child maps of a tree are in the order of their keys, each key once, at every node:
  what a \<^verbatim>\<open>SortedMap\<close> is by construction.
\<close>

fun sortedKeys :: "'a tree \<Rightarrow> bool" where
  "sortedKeys (Tree v cs) =
     (sorted_wrt (<) (map fst cs) \<and> list_all (\<lambda>kc. sortedKeys (snd kc)) cs)"

section \<open>Operations and pending writes\<close>

text \<open>
  Modelled from the spec: the four operations and their sources. The tree of an
  \<^verbatim>\<open>AckUserWrite\<close> holds what \<^verbatim>\<open>ackUserWrite\<close> stores in it: the boolean
  \<^verbatim>\<open>true\<close>, or a node of the acknowledged merge.
\<close>

datatype operationSource = User | Server | ServerTaggedQuery string

datatype 'n affected = AffectedTrue | AffectedNode 'n

datatype 'n operation =
  Overwrite operationSource path 'n
  | Merge operationSource path "'n tree"
  | AckUserWrite path "'n affected tree" bool
  | ListenComplete operationSource path

fun opPath :: "'n operation \<Rightarrow> path" where
  "opPath (Overwrite source p snap) = p"
| "opPath (Merge source p ch) = p"
| "opPath (AckUserWrite p affectedTree revert) = p"
| "opPath (ListenComplete source p) = p"

fun opSource :: "'n operation \<Rightarrow> operationSource" where
  "opSource (Overwrite source p snap) = source"
| "opSource (Merge source p ch) = source"
| "opSource (AckUserWrite p affectedTree revert) = User"
| "opSource (ListenComplete source p) = source"

text \<open>
  Modelled from the spec: a pending write (an overwrite holds a node, a merge the nodes
  of its changed children by path string) and the \<^verbatim>\<open>WriteTree\<close>, absent from src/, as the
  log of the pending writes in the order they were added. \<^verbatim>\<open>removeWrite\<close> takes the
  write out of the log and answers whether views must be reevaluated: the write was
  visible and no later visible write fully covers its path.
\<close>

datatype 'n writeData = Snap 'n | Children "(string \<times> 'n) list"

record 'n writeRecord =
  writeId :: nat
  wpath :: path
  wdata :: "'n writeData"
  visible :: bool

type_synonym 'n writeTree = "'n writeRecord list"

definition addOverwrite :: "path \<Rightarrow> 'n \<Rightarrow> nat \<Rightarrow> bool \<Rightarrow> 'n writeTree \<Rightarrow> 'n writeTree" where
  "addOverwrite p snap wid vis wt =
     wt @ [\<lparr>writeId = wid, wpath = p, wdata = Snap snap, visible = vis\<rparr>]"

definition addMerge :: "path \<Rightarrow> (string \<times> 'n) list \<Rightarrow> nat \<Rightarrow> 'n writeTree \<Rightarrow> 'n writeTree" where
  "addMerge p changedChildren wid wt =
     wt @ [\<lparr>writeId = wid, wpath = p, wdata = Children changedChildren, visible = True\<rparr>]"

definition getWrite :: "nat \<Rightarrow> 'n writeTree \<Rightarrow> 'n writeRecord option" where
  "getWrite wid wt = find (\<lambda>w. writeId w = wid) wt"

definition recordContainsPath :: "'n writeRecord \<Rightarrow> path \<Rightarrow> bool" where
  "recordContainsPath w p =
     (case wdata w of
        Snap snap \<Rightarrow> prefix (wpath w) p
      | Children ch \<Rightarrow> list_ex (\<lambda>kn. prefix (wpath w @ pathFromString (fst kn)) p) ch)"

definition removeWrite :: "nat \<Rightarrow> 'n writeTree \<Rightarrow> error + (bool \<times> 'n writeTree)" where
  "removeWrite wid wt =
     (case getWrite wid wt of
        None \<Rightarrow> Inl NonexistentWriteId
      | Some writeToRemove \<Rightarrow>
          (let before = takeWhile (\<lambda>w. writeId w \<noteq> wid) wt;
               later = tl (dropWhile (\<lambda>w. writeId w \<noteq> wid) wt);
               covered = list_ex (\<lambda>w. visible w \<and> recordContainsPath w (wpath writeToRemove)) later
           in Inr (visible writeToRemove \<and> \<not> covered, before @ later)))"

record 'n writeTreeRef =
  treePath :: path
  writeTree :: "'n writeTree"

definition childWrites :: "path \<Rightarrow> 'n writeTree \<Rightarrow> 'n writeTreeRef" where
  "childWrites p wt = \<lparr>treePath = p, writeTree = wt\<rparr>"

definition refChild :: "'n writeTreeRef \<Rightarrow> string \<Rightarrow> 'n writeTreeRef" where
  "refChild ref childName = \<lparr>treePath = treePath ref @ [childName], writeTree = writeTree ref\<rparr>"

section \<open>Views and Sync Points\<close>

text \<open>
  Modelled from the spec: a View, absent from src/: its query, its event registrations
  and its caches, which stay opaque (\<open>'v\<close>).
\<close>

record ('v, 'r) view =
  getQuery :: query
  eventRegistrations :: "'r list"
  viewCache :: 'v

text \<open>
  Modelled from the spec: the external collaborators, whose code src/ does not hold,
  as parameters: the Node operations, \<^verbatim>\<open>Operation.operationForChild\<close>, what a View
  computes from its caches (the cache of a new view, its initial events, the events and
  the new cache of an operation, its complete server cache at a path), an event
  registration's cancel event, and the events the listen provider answers
  \<^verbatim>\<open>startListening\<close> with.
\<close>

record ('n, 'v, 'r, 'e) env =
  EMPTY_NODE :: 'n
  getImmediateChild :: "'n \<Rightarrow> string \<Rightarrow> 'n"
  updateImmediateChild :: "'n \<Rightarrow> string \<Rightarrow> 'n \<Rightarrow> 'n"
  operationForChild :: "'n operation \<Rightarrow> string \<Rightarrow> 'n operation option"
  newViewCache :: "query \<Rightarrow> 'n writeTreeRef \<Rightarrow> 'n \<Rightarrow> bool \<Rightarrow> 'v"
  getInitialEvents :: "('v, 'r) view \<Rightarrow> 'r \<Rightarrow> 'e list"
  viewApplyOperation ::
    "('v, 'r) view \<Rightarrow> 'n operation \<Rightarrow> 'n writeTreeRef \<Rightarrow> 'n option \<Rightarrow> 'e list \<times> 'v"
  viewGetCompleteServerCache :: "('v, 'r) view \<Rightarrow> path \<Rightarrow> 'n option"
  createCancelEvent :: "'r \<Rightarrow> string \<Rightarrow> path \<Rightarrow> 'e option"
  startListening :: "query \<Rightarrow> nat option \<Rightarrow> ('v, 'r) view \<Rightarrow> 'e list"

text \<open>
  Modelled from the spec: a Sync Point, absent from src/: its views by query identifier,
  in the order they were added. A complete view is one whose query loads all data.
\<close>

type_synonym ('v, 'r) syncPoint = "(string \<times> ('v, 'r) view) list"

definition spIsEmpty :: "('v, 'r) syncPoint \<Rightarrow> bool" where
  "spIsEmpty sp = (sp = [])"

definition getCompleteView :: "('v, 'r) syncPoint \<Rightarrow> ('v, 'r) view option" where
  "getCompleteView sp = find (\<lambda>v. loadsAllData (getQuery v)) (map snd sp)"

definition hasCompleteView :: "('v, 'r) syncPoint \<Rightarrow> bool" where
  "hasCompleteView sp = (getCompleteView sp \<noteq> None)"

definition getQueryViews :: "('v, 'r) syncPoint \<Rightarrow> ('v, 'r) view list" where
  "getQueryViews sp = filter (\<lambda>v. \<not> loadsAllData (getQuery v)) (map snd sp)"

definition viewForQuery :: "('v, 'r) syncPoint \<Rightarrow> query \<Rightarrow> ('v, 'r) view option" where
  "viewForQuery sp q =
     (if loadsAllData q then getCompleteView sp else map_of sp (queryIdentifier q))"

definition viewExistsForQuery :: "('v, 'r) syncPoint \<Rightarrow> query \<Rightarrow> bool" where
  "viewExistsForQuery sp q = (viewForQuery sp q \<noteq> None)"

text \<open>The first complete server cache a view of the Sync Point has for the path.\<close>

fun firstSome :: "('a \<Rightarrow> 'b option) \<Rightarrow> 'a list \<Rightarrow> 'b option" where
  "firstSome f [] = None"
| "firstSome f (x # xs) = (case f x of Some y \<Rightarrow> Some y | None \<Rightarrow> firstSome f xs)"

definition getCompleteServerCache ::
  "('n, 'v, 'r, 'e) env \<Rightarrow> ('v, 'r) syncPoint \<Rightarrow> path \<Rightarrow> 'n option" where
  "getCompleteServerCache env sp p =
     firstSome (\<lambda>v. viewGetCompleteServerCache env v p) (map snd sp)"

text \<open>
  \<^verbatim>\<open>SyncPoint.addEventRegistration\<close>: the view of the query's identifier, made if there
  is none, gets the registration; the events are the view's initial events for it.
\<close>

definition spAddEventRegistration ::
  "('n, 'v, 'r, 'e) env \<Rightarrow> ('v, 'r) syncPoint \<Rightarrow> query \<Rightarrow> 'r \<Rightarrow> 'n writeTreeRef \<Rightarrow> 'n \<Rightarrow> bool
   \<Rightarrow> 'e list \<times> ('v, 'r) syncPoint" where
  "spAddEventRegistration env sp q registration writesCache serverCache serverCacheComplete =
     (let queryId = queryIdentifier q;
          v = (case map_of sp queryId of
                 None \<Rightarrow> \<lparr>getQuery = q, eventRegistrations = [],
                           viewCache = newViewCache env q writesCache serverCache serverCacheComplete\<rparr>
               | Some v \<Rightarrow> v);
          v' = v\<lparr>eventRegistrations := eventRegistrations v @ [registration]\<rparr>
      in (getInitialEvents env v' registration, AList.update queryId v' sp))"

text \<open>
  \<^verbatim>\<open>View.removeEventRegistration\<close>: with a cancel error, a cancel event for each
  registration that makes one; the given registration is taken out, or all of them when
  none is given.
\<close>

definition viewRemoveEventRegistration ::
  "('n, 'v, 'r, 'e) env \<Rightarrow> 'r option \<Rightarrow> string option \<Rightarrow> ('v, 'r) view \<Rightarrow> 'e list \<times> ('v, 'r) view" where
  "viewRemoveEventRegistration env registration cancelError v =
     (let cancelEvents =
            (case cancelError of
               None \<Rightarrow> []
             | Some err \<Rightarrow>
                 List.map_filter (\<lambda>r. createCancelEvent env r err (qpath (getQuery v)))
                   (eventRegistrations v));
          remaining =
            (case registration of
               None \<Rightarrow> []
             | Some r \<Rightarrow> filter (\<lambda>existing. existing \<noteq> r) (eventRegistrations v))
      in (cancelEvents, v\<lparr>eventRegistrations := remaining\<rparr>))"

text \<open>
  \<^verbatim>\<open>SyncPoint.removeEventRegistration\<close>: a default query removes the registration from
  every view, another query from its own view; a view so left without registrations is
  deleted, and its query is reported as removed when it does not load all data; when the
  last complete view went, the default query at the path is reported as removed. The
  result is the removed queries, the cancel events and the Sync Point as it is left.
  \<open>removeFromView\<close> is what happens to one view: its cancel events, the view
  afterwards, and whether it is deleted.
\<close>

definition removeFromView ::
  "('n, 'v, 'r, 'e) env \<Rightarrow> query \<Rightarrow> 'r option \<Rightarrow> string option \<Rightarrow> string \<times> ('v, 'r) view
   \<Rightarrow> 'e list \<times> (string \<times> ('v, 'r) view) \<times> bool" where
  "removeFromView env q registration cancelError kv =
     (if queryIdentifier q = ''default'' \<or> fst kv = queryIdentifier q
      then (let r = viewRemoveEventRegistration env registration cancelError (snd kv)
            in (fst r, (fst kv, snd r), eventRegistrations (snd r) = []))
      else ([], kv, False))"

definition spRemoveEventRegistration ::
  "('n, 'v, 'r, 'e) env \<Rightarrow> ('v, 'r) syncPoint \<Rightarrow> query \<Rightarrow> 'r option \<Rightarrow> string option
   \<Rightarrow> query list \<times> 'e list \<times> ('v, 'r) syncPoint" where
  "spRemoveEventRegistration env sp q registration cancelError =
     (let hadCompleteView = hasCompleteView sp;
          results = map (removeFromView env q registration cancelError) sp;
          cancelEvents = concat (map fst results);
          sp' = map (\<lambda>r. fst (snd r)) (filter (\<lambda>r. \<not> snd (snd r)) results);
          removed = map (\<lambda>r. getQuery (snd (fst (snd r))))
                      (filter (\<lambda>r. snd (snd r) \<and> \<not> loadsAllData (getQuery (snd (fst (snd r)))))
                         results);
          removed' = (if hadCompleteView \<and> \<not> hasCompleteView sp' then removed @ [getRef q]
                      else removed)
      in (removed', cancelEvents, sp'))"

text \<open>
  \<^verbatim>\<open>SyncPoint.applyOperation\<close>: an operation of a tagged query goes to the view of that
  query identifier only, any other operation to every view; the events are concatenated,
  and the views keep their new caches.
\<close>

definition spApplyOperation ::
  "('n, 'v, 'r, 'e) env \<Rightarrow> ('v, 'r) syncPoint \<Rightarrow> 'n operation \<Rightarrow> 'n writeTreeRef \<Rightarrow> 'n option
   \<Rightarrow> 'e list \<times> ('v, 'r) syncPoint" where
  "spApplyOperation env sp operation writesCache optCompleteServerCache =
     (let addressed = (\<lambda>kv. case opSource operation of
                               ServerTaggedQuery queryId \<Rightarrow> fst kv = queryId
                             | _ \<Rightarrow> True);
          results = map (\<lambda>kv. if addressed kv
                               then (let r = viewApplyOperation env (snd kv) operation writesCache
                                               optCompleteServerCache
                                     in (fst r, (fst kv, (snd kv)\<lparr>viewCache := snd r\<rparr>)))
                               else ([], kv)) sp
      in (concat (map fst results), map snd results))"

section \<open>The Sync Tree\<close>

text \<open>
  The state of a \<^verbatim>\<open>SyncTree\<close>: the tree of Sync Points, the pending writes, the two tag
  maps (\<^verbatim>\<open>tagToQueryMap_\<close> is keyed by the tag; the code's key is the tag after an
  underscore), the static counter \<^verbatim>\<open>nextQueryTag_\<close>, and the calls the listen provider
  has received so far. A Sync Point is a mutable object held by the tree: where the code
  changes one in place, the model writes it back at its path.
\<close>

datatype listenCall = StartListening query "nat option" | StopListening query "nat option"

record ('n, 'v, 'r) syncTree =
  syncPointTree :: "('v, 'r) syncPoint tree"
  pendingWriteTree :: "'n writeTree"
  tagToQueryMap :: "nat \<rightharpoonup> string"
  queryToTagMap :: "string \<rightharpoonup> nat"
  nextQueryTag :: nat
  listenProvider :: "listenCall list"

definition newSyncTree :: "('n, 'v, 'r) syncTree" where
  "newSyncTree = \<lparr>syncPointTree = Empty, pendingWriteTree = [], tagToQueryMap = Map.empty,
     queryToTagMap = Map.empty, nextQueryTag = 1, listenProvider = []\<rparr>"

subsection \<open>Operation dispatch\<close>

text \<open>
  Both helpers start the same way: without cached server data, the complete server cache
  of the Sync Point here is taken, if there is a Sync Point. And both hand a child the
  child of the server cache, if there is a cache.
\<close>

definition adoptServerCache ::
  "('n, 'v, 'r, 'e) env \<Rightarrow> 'n option \<Rightarrow> ('v, 'r) syncPoint option \<Rightarrow> 'n option" where
  "adoptServerCache env serverCache syncPoint =
     (case (serverCache, syncPoint) of
        (None, Some sp) \<Rightarrow> getCompleteServerCache env sp []
      | _ \<Rightarrow> serverCache)"

definition childServerCacheOf ::
  "('n, 'v, 'r, 'e) env \<Rightarrow> 'n option \<Rightarrow> string \<Rightarrow> 'n option" where
  "childServerCacheOf env serverCache childName =
     (case serverCache of None \<Rightarrow> None | Some c \<Rightarrow> Some (getImmediateChild env c childName))"

text \<open>
  \<^verbatim>\<open>applyOperationDescendantsHelper_\<close>: every child subtree the operation reaches, in
  key order, then the Sync Point here. The result is the events and the tree with the
  Sync Points as the operation left them.
\<close>

fun applyOperationDescendantsHelper ::
  "('n, 'v, 'r, 'e) env \<Rightarrow> 'n operation \<Rightarrow> ('v, 'r) syncPoint tree \<Rightarrow> 'n option \<Rightarrow> 'n writeTreeRef
   \<Rightarrow> 'e list \<times> ('v, 'r) syncPoint tree" where
  "applyOperationDescendantsHelper env operation (Tree syncPoint cs) serverCache writesCache =
     (let serverCache' = adoptServerCache env serverCache syncPoint;
          results =
            map (\<lambda>(childName, childTree).
                   (let childServerCache = childServerCacheOf env serverCache' childName;
                        childWritesCache = refChild writesCache childName
                    in case operationForChild env operation childName of
                         None \<Rightarrow> ([], (childName, childTree))
                       | Some childOperation \<Rightarrow>
                           (let r = applyOperationDescendantsHelper env childOperation childTree
                                      childServerCache childWritesCache
                            in (fst r, (childName, snd r))))) cs;
          events = concat (map fst results)
      in case syncPoint of
           None \<Rightarrow> (events, Tree None (map snd results))
         | Some sp \<Rightarrow>
             (let r = spApplyOperation env sp operation writesCache serverCache'
              in (events @ fst r, Tree (Some (snd r)) (map snd results))))"

text \<open>
  \<^verbatim>\<open>applyOperationHelper_\<close>: at an empty operation path the descendants helper; else
  the child subtree named by the front of the path, then the Sync Point here.
\<close>

function applyOperationHelper ::
  "('n, 'v, 'r, 'e) env \<Rightarrow> 'n operation \<Rightarrow> ('v, 'r) syncPoint tree \<Rightarrow> 'n option \<Rightarrow> 'n writeTreeRef
   \<Rightarrow> 'e list \<times> ('v, 'r) syncPoint tree" where
  "applyOperationHelper env operation (Tree syncPoint cs) serverCache writesCache =
     (if opPath operation = []
      then applyOperationDescendantsHelper env operation (Tree syncPoint cs) serverCache writesCache
      else
        (let serverCache' = adoptServerCache env serverCache syncPoint;
             childName = hd (opPath operation);
             childOperation = operationForChild env operation childName;
             childResult =
               (case map_of cs childName of
                  None \<Rightarrow> ([], cs)
                | Some childTree \<Rightarrow>
                    (case childOperation of
                       None \<Rightarrow> ([], cs)
                     | Some childOp \<Rightarrow>
                         (let childServerCache = childServerCacheOf env serverCache' childName;
                              childWritesCache = refChild writesCache childName;
                              r = applyOperationHelper env childOp childTree childServerCache
                                    childWritesCache
                          in (fst r, AList.update childName (snd r) cs))))
         in case syncPoint of
              None \<Rightarrow> (fst childResult, Tree None (snd childResult))
            | Some sp \<Rightarrow>
                (let r = spApplyOperation env sp operation writesCache serverCache'
                 in (fst childResult @ fst r, Tree (Some (snd r)) (snd childResult)))))"
  by pat_completeness auto
termination
proof (relation "measure (\<lambda>(env, operation, t, serverCache, writesCache). size t)")
  show "wf (measure (\<lambda>(env, operation, t, serverCache, writesCache). size t))" by simp
next
  fix env :: "('n, 'v, 'r, 'e) env" and operation :: "'n operation"
    and syncPoint :: "('v, 'r) syncPoint option" and cs :: "(string \<times> ('v, 'r) syncPoint tree) list"
    and serverCache :: "'n option" and writesCache :: "'n writeTreeRef"
    and x xa xb x2 x2a xc xd
  assume "map_of cs xa = Some x2"
  then have "(xa, x2) \<in> set cs" by (rule map_of_SomeD)
  then have "size x2 < Suc (size_list (size_prod (\<lambda>x. 0) size) cs)"
    by (induction cs) auto
  then show "((env, x2a, x2, xc, xd), env, operation, Tree syncPoint cs, serverCache, writesCache)
      \<in> measure (\<lambda>(env, operation, t, serverCache, writesCache). size t)"
    by simp
qed

definition applyOperationToSyncPoints ::
  "('n, 'v, 'r, 'e) env \<Rightarrow> 'n operation \<Rightarrow> ('n, 'v, 'r) syncTree \<Rightarrow> 'e list \<times> ('n, 'v, 'r) syncTree" where
  "applyOperationToSyncPoints env operation s =
     (let r = applyOperationHelper env operation (syncPointTree s) None
                (childWrites [] (pendingWriteTree s))
      in (fst r, s\<lparr>syncPointTree := snd r\<rparr>))"

subsection \<open>Writes and server data\<close>

definition applyUserOverwrite ::
  "('n, 'v, 'r, 'e) env \<Rightarrow> path \<Rightarrow> 'n \<Rightarrow> nat \<Rightarrow> bool \<Rightarrow> ('n, 'v, 'r) syncTree
   \<Rightarrow> 'e list \<times> ('n, 'v, 'r) syncTree" where
  "applyUserOverwrite env p newData wid vis s =
     (let s1 = s\<lparr>pendingWriteTree := addOverwrite p newData wid vis (pendingWriteTree s)\<rparr>
      in if \<not> vis then ([], s1)
         else applyOperationToSyncPoints env (Overwrite User p newData) s1)"

definition applyUserMerge ::
  "('n, 'v, 'r, 'e) env \<Rightarrow> path \<Rightarrow> (string \<times> 'n) list \<Rightarrow> nat \<Rightarrow> ('n, 'v, 'r) syncTree
   \<Rightarrow> 'e list \<times> ('n, 'v, 'r) syncTree" where
  "applyUserMerge env p changedChildren wid s =
     (let s1 = s\<lparr>pendingWriteTree := addMerge p changedChildren wid (pendingWriteTree s)\<rparr>;
          changeTree = fromObject changedChildren
      in applyOperationToSyncPoints env (Merge User p changeTree) s1)"

text \<open>
  The tree \<^verbatim>\<open>ackUserWrite\<close> builds for the acknowledged write: for an overwrite
  \<^verbatim>\<open>true\<close> at the empty path; for a merge, at the path of each child, the second
  argument of the callback, which is the child's node.
\<close>

definition affectedTreeOf :: "'n writeRecord \<Rightarrow> 'n affected tree" where
  "affectedTreeOf write =
     (case wdata write of
        Snap snap \<Rightarrow> tset [] AffectedTrue Empty
      | Children ch \<Rightarrow>
          foldl (\<lambda>affectedTree (pathString, node).
                   tset (pathFromString pathString) (AffectedNode node) affectedTree) Empty ch)"

definition ackUserWrite ::
  "('n, 'v, 'r, 'e) env \<Rightarrow> nat \<Rightarrow> bool \<Rightarrow> ('n, 'v, 'r) syncTree
   \<Rightarrow> error + ('e list \<times> ('n, 'v, 'r) syncTree)" where
  "ackUserWrite env wid revert s =
     (let write = getWrite wid (pendingWriteTree s)
      in case removeWrite wid (pendingWriteTree s) of
           Inl e \<Rightarrow> Inl e
         | Inr (needToReevaluate, wt') \<Rightarrow>
             (let s1 = s\<lparr>pendingWriteTree := wt'\<rparr>
              in if \<not> needToReevaluate then Inr ([], s1)
                 else (case write of
                         None \<Rightarrow> Inl NullDereference
                       | Some w \<Rightarrow>
                           Inr (applyOperationToSyncPoints env
                                  (AckUserWrite (wpath w) (affectedTreeOf w) revert) s1))))"

definition applyServerOverwrite ::
  "('n, 'v, 'r, 'e) env \<Rightarrow> path \<Rightarrow> 'n \<Rightarrow> ('n, 'v, 'r) syncTree \<Rightarrow> 'e list \<times> ('n, 'v, 'r) syncTree" where
  "applyServerOverwrite env p newData s =
     applyOperationToSyncPoints env (Overwrite Server p newData) s"

definition applyServerMerge ::
  "('n, 'v, 'r, 'e) env \<Rightarrow> path \<Rightarrow> (string \<times> 'n) list \<Rightarrow> ('n, 'v, 'r) syncTree
   \<Rightarrow> 'e list \<times> ('n, 'v, 'r) syncTree" where
  "applyServerMerge env p changedChildren s =
     applyOperationToSyncPoints env (Merge Server p (fromObject changedChildren)) s"

definition applyListenComplete ::
  "('n, 'v, 'r, 'e) env \<Rightarrow> path \<Rightarrow> ('n, 'v, 'r) syncTree \<Rightarrow> 'e list \<times> ('n, 'v, 'r) syncTree" where
  "applyListenComplete env p s =
     applyOperationToSyncPoints env (ListenComplete Server p) s"

subsection \<open>Tagged queries\<close>

definition queryKeyForTag :: "('n, 'v, 'r) syncTree \<Rightarrow> nat \<Rightarrow> string option" where
  "queryKeyForTag s tag = tagToQueryMap s tag"

definition tagForQuery :: "('n, 'v, 'r) syncTree \<Rightarrow> query \<Rightarrow> nat option" where
  "tagForQuery s q = queryToTagMap s (makeQueryKey q)"

definition applyTaggedOperation ::
  "('n, 'v, 'r, 'e) env \<Rightarrow> path \<Rightarrow> string \<Rightarrow> 'n operation \<Rightarrow> ('n, 'v, 'r) syncTree
   \<Rightarrow> error + ('e list \<times> ('n, 'v, 'r) syncTree)" where
  "applyTaggedOperation env queryPath queryId operation s =
     (case tget queryPath (syncPointTree s) of
        None \<Rightarrow> Inl MissingSyncPoint
      | Some syncPoint \<Rightarrow>
          (let writesCache = childWrites queryPath (pendingWriteTree s);
               r = spApplyOperation env syncPoint operation writesCache None
           in Inr (fst r, s\<lparr>syncPointTree := tset queryPath (snd r) (syncPointTree s)\<rparr>)))"

text \<open>
  The three tagged entry points share their shape: an unknown tag is dropped; a known
  one is parsed, the path made relative to the query's, and the operation applied to the
  query's Sync Point. \<^verbatim>\<open>applyTaggedQueryOverwrite\<close> tests the key against
  \<^verbatim>\<open>null\<close>, the other two test its truth, which an empty key fails too.
\<close>

definition applyTaggedQueryOverwrite ::
  "('n, 'v, 'r, 'e) env \<Rightarrow> path \<Rightarrow> 'n \<Rightarrow> nat \<Rightarrow> ('n, 'v, 'r) syncTree
   \<Rightarrow> error + ('e list \<times> ('n, 'v, 'r) syncTree)" where
  "applyTaggedQueryOverwrite env p snap tag s =
     (case queryKeyForTag s tag of
        Some queryKey \<Rightarrow>
          (case parseQueryKey queryKey of
             Inl e \<Rightarrow> Inl e
           | Inr (queryPath, queryId) \<Rightarrow>
               (case relativePath queryPath p of
                  Inl e \<Rightarrow> Inl e
                | Inr rel \<Rightarrow>
                    applyTaggedOperation env queryPath queryId
                      (Overwrite (ServerTaggedQuery queryId) rel snap) s))
      | None \<Rightarrow> Inr ([], s))"

definition applyTaggedQueryMerge ::
  "('n, 'v, 'r, 'e) env \<Rightarrow> path \<Rightarrow> (string \<times> 'n) list \<Rightarrow> nat \<Rightarrow> ('n, 'v, 'r) syncTree
   \<Rightarrow> error + ('e list \<times> ('n, 'v, 'r) syncTree)" where
  "applyTaggedQueryMerge env p changedChildren tag s =
     (case queryKeyForTag s tag of
        Some queryKey \<Rightarrow>
          (if queryKey = [] then Inr ([], s)
           else
             (case parseQueryKey queryKey of
                Inl e \<Rightarrow> Inl e
              | Inr (queryPath, queryId) \<Rightarrow>
                  (case relativePath queryPath p of
                     Inl e \<Rightarrow> Inl e
                   | Inr rel \<Rightarrow>
                       applyTaggedOperation env queryPath queryId
                         (Merge (ServerTaggedQuery queryId) rel (fromObject changedChildren)) s)))
      | None \<Rightarrow> Inr ([], s))"

definition applyTaggedListenComplete ::
  "('n, 'v, 'r, 'e) env \<Rightarrow> path \<Rightarrow> nat \<Rightarrow> ('n, 'v, 'r) syncTree
   \<Rightarrow> error + ('e list \<times> ('n, 'v, 'r) syncTree)" where
  "applyTaggedListenComplete env p tag s =
     (case queryKeyForTag s tag of
        Some queryKey \<Rightarrow>
          (if queryKey = [] then Inr ([], s)
           else
             (case parseQueryKey queryKey of
                Inl e \<Rightarrow> Inl e
              | Inr (queryPath, queryId) \<Rightarrow>
                  (case relativePath queryPath p of
                     Inl e \<Rightarrow> Inl e
                   | Inr rel \<Rightarrow>
                       applyTaggedOperation env queryPath queryId
                         (ListenComplete (ServerTaggedQuery queryId) rel) s)))
      | None \<Rightarrow> Inr ([], s))"

subsection \<open>Listens\<close>

definition queryForListening :: "query \<Rightarrow> query" where
  "queryForListening q = (if loadsAllData q \<and> \<not> isDefault q then getRef q else q)"

text \<open>The truth of a tag in a condition: a number other than zero.\<close>

definition truthy :: "nat option \<Rightarrow> bool" where
  "truthy tag = (case tag of None \<Rightarrow> False | Some t \<Rightarrow> t \<noteq> 0)"

text \<open>
  \<^verbatim>\<open>collectDistinctViewsForSubTree_\<close>: the complete view where a Sync Point has one,
  else its other views and those collected below.
\<close>

definition collectDistinctViewsForSubTree :: "('v, 'r) syncPoint tree \<Rightarrow> ('v, 'r) view list" where
  "collectDistinctViewsForSubTree t =
     tfold (\<lambda>relativePath maybeChildSyncPoint childMap.
              case (case maybeChildSyncPoint of None \<Rightarrow> None | Some sp \<Rightarrow> getCompleteView sp) of
                Some completeView \<Rightarrow> [completeView]
              | None \<Rightarrow>
                  (case maybeChildSyncPoint of None \<Rightarrow> [] | Some sp \<Rightarrow> getQueryViews sp)
                  @ concat (map snd childMap)) t"

text \<open>
  The queries \<^verbatim>\<open>setupListener_\<close> stops for a default listener: below the root of the
  subtree the query of a complete view where there is one, else the queries of the other
  views and those collected below.
\<close>

definition queriesToStop :: "('v, 'r) syncPoint tree \<Rightarrow> query list" where
  "queriesToStop t =
     tfold (\<lambda>relativePath maybeChildSyncPoint childMap.
              case (if relativePath \<noteq> []
                    then (case maybeChildSyncPoint of None \<Rightarrow> None | Some sp \<Rightarrow> getCompleteView sp)
                    else None) of
                Some completeView \<Rightarrow> [getQuery completeView]
              | None \<Rightarrow>
                  (case maybeChildSyncPoint of
                     None \<Rightarrow> []
                   | Some sp \<Rightarrow> map getQuery (getQueryViews sp))
                  @ concat (map snd childMap)) t"

text \<open>
  \<^verbatim>\<open>setupListener_\<close>: one \<^verbatim>\<open>startListening\<close> for the query, with its tag if it has
  one; for a tagged query the assertion that its Sync Point has no complete view, for an
  untagged one a \<^verbatim>\<open>stopListening\<close> for each query in the subtree that it shadows.
\<close>

definition setupListener ::
  "('n, 'v, 'r, 'e) env \<Rightarrow> query \<Rightarrow> ('v, 'r) view \<Rightarrow> ('n, 'v, 'r) syncTree
   \<Rightarrow> error + ('e list \<times> ('n, 'v, 'r) syncTree)" where
  "setupListener env q v s =
     (let p = qpath q;
          tag = tagForQuery s q;
          events = startListening env (queryForListening q) tag v;
          s1 = s\<lparr>listenProvider := listenProvider s @ [StartListening (queryForListening q) tag]\<rparr>;
          sub = subtree p (syncPointTree s1)
      in if truthy tag
         then (case tvalue sub of
                 None \<Rightarrow> Inl NullDereference
               | Some sp \<Rightarrow> if hasCompleteView sp then Inl QueryShadowed else Inr (events, s1))
         else Inr (events,
                   s1\<lparr>listenProvider := listenProvider s1 @
                        map (\<lambda>queryToStop. StopListening (queryForListening queryToStop)
                                             (tagForQuery s1 queryToStop))
                          (queriesToStop sub)\<rparr>))"

subsection \<open>Registration\<close>

text \<open>
  The walk of \<^verbatim>\<open>addEventRegistration\<close> over the strict ancestors of the path: the
  first complete server cache for the path, and whether an ancestor has a complete view.
\<close>

fun ancestorWalk ::
  "('n, 'v, 'r, 'e) env \<Rightarrow> path \<Rightarrow> (path \<times> ('v, 'r) syncPoint) list \<Rightarrow> 'n option \<times> bool
   \<Rightarrow> error + ('n option \<times> bool)" where
  "ancestorWalk env p [] acc = Inr acc"
| "ancestorWalk env p ((pathToSyncPoint, sp) # rest) (serverCache, foundAncestorDefaultView) =
     (case relativePath pathToSyncPoint p of
        Inl e \<Rightarrow> Inl e
      | Inr rel \<Rightarrow>
          ancestorWalk env p rest
            (case serverCache of Some c \<Rightarrow> Some c | None \<Rightarrow> getCompleteServerCache env sp rel,
             foundAncestorDefaultView \<or> hasCompleteView sp))"

text \<open>
  The server cache \<^verbatim>\<open>addEventRegistration\<close> assembles when no complete one was found:
  the complete caches of the children of the path that have one.
\<close>

definition assembledServerCache ::
  "('n, 'v, 'r, 'e) env \<Rightarrow> ('v, 'r) syncPoint tree \<Rightarrow> 'n" where
  "assembledServerCache env sub =
     foldl (\<lambda>serverCache (childName, childSyncPoint).
              case getCompleteServerCache env childSyncPoint [] of
                None \<Rightarrow> serverCache
              | Some completeCache \<Rightarrow> updateImmediateChild env serverCache childName completeCache)
       (EMPTY_NODE env) (foreachChild sub)"

definition addEventRegistration ::
  "('n, 'v, 'r, 'e) env \<Rightarrow> query \<Rightarrow> 'r \<Rightarrow> ('n, 'v, 'r) syncTree
   \<Rightarrow> error + ('e list \<times> ('n, 'v, 'r) syncTree)" where
  "addEventRegistration env q eventRegistration s =
     (let p = qpath q
      in case ancestorWalk env p (foreachOnPath p (syncPointTree s)) (None, False) of
           Inl e \<Rightarrow> Inl e
         | Inr (serverCache0, found0) \<Rightarrow>
             (let existing = tget p (syncPointTree s);
                  syncPoint = (case existing of None \<Rightarrow> [] | Some sp \<Rightarrow> sp);
                  tree1 = (case existing of None \<Rightarrow> tset p [] (syncPointTree s)
                           | Some sp \<Rightarrow> syncPointTree s);
                  foundAncestorDefaultView =
                    (case existing of None \<Rightarrow> found0 | Some sp \<Rightarrow> found0 \<or> hasCompleteView sp);
                  serverCache1 =
                    (case existing of
                       None \<Rightarrow> serverCache0
                     | Some sp \<Rightarrow>
                         (case serverCache0 of Some c \<Rightarrow> Some c
                          | None \<Rightarrow> getCompleteServerCache env sp []));
                  serverCacheComplete = (serverCache1 \<noteq> None);
                  serverCache =
                    (case serverCache1 of
                       Some c \<Rightarrow> c
                     | None \<Rightarrow> assembledServerCache env (subtree p tree1));
                  viewAlreadyExists = viewExistsForQuery syncPoint q;
                  needsTag = (\<not> viewAlreadyExists \<and> \<not> loadsAllData q);
                  queryKey = makeQueryKey q
              in if needsTag \<and> queryToTagMap s queryKey \<noteq> None
                 then Inl ViewDoesNotExistButWeHaveATag
                 else
                   (let tag = nextQueryTag s;
                        s1 = (if needsTag
                              then s\<lparr>syncPointTree := tree1,
                                     queryToTagMap := (queryToTagMap s)(queryKey \<mapsto> tag),
                                     tagToQueryMap := (tagToQueryMap s)(tag \<mapsto> queryKey),
                                     nextQueryTag := tag + 1\<rparr>
                              else s\<lparr>syncPointTree := tree1\<rparr>);
                        writesCache = childWrites p (pendingWriteTree s1);
                        r = spAddEventRegistration env syncPoint q eventRegistration writesCache
                              serverCache serverCacheComplete;
                        s2 = s1\<lparr>syncPointTree := tset p (snd r) tree1\<rparr>
                    in if \<not> viewAlreadyExists \<and> \<not> foundAncestorDefaultView
                       then (case viewForQuery (snd r) q of
                               None \<Rightarrow> Inl NullDereference
                             | Some v \<Rightarrow>
                                 (case setupListener env q v s2 of
                                    Inl e \<Rightarrow> Inl e
                                  | Inr (listenEvents, s3) \<Rightarrow> Inr (fst r @ listenEvents, s3)))
                       else Inr (fst r, s2))))"

text \<open>\<^verbatim>\<open>removeTags_\<close>: both entries of each removed query that does not load all data.\<close>

definition removeTags :: "query list \<Rightarrow> ('n, 'v, 'r) syncTree \<Rightarrow> ('n, 'v, 'r) syncTree" where
  "removeTags queries s =
     foldl (\<lambda>s removedQuery.
              if \<not> loadsAllData removedQuery
              then (let removedQueryKey = makeQueryKey removedQuery;
                        removedQueryTag = queryToTagMap s removedQueryKey
                    in s\<lparr>queryToTagMap := (queryToTagMap s)(removedQueryKey := None),
                         tagToQueryMap :=
                           (case removedQueryTag of
                              None \<Rightarrow> tagToQueryMap s
                            | Some t \<Rightarrow> (tagToQueryMap s)(t := None))\<rparr>)
              else s) s queries"

definition removeEventRegistration ::
  "('n, 'v, 'r, 'e) env \<Rightarrow> query \<Rightarrow> 'r option \<Rightarrow> string option \<Rightarrow> ('n, 'v, 'r) syncTree
   \<Rightarrow> 'e list \<times> ('n, 'v, 'r) syncTree" where
  "removeEventRegistration env q eventRegistration cancelError s =
     (let p = qpath q
      in case tget p (syncPointTree s) of
           None \<Rightarrow> ([], s)
         | Some maybeSyncPoint \<Rightarrow>
             if queryIdentifier q = ''default'' \<or> viewExistsForQuery maybeSyncPoint q
             then
               (let removedAndEvents =
                      spRemoveEventRegistration env maybeSyncPoint q eventRegistration cancelError;
                    removed = fst removedAndEvents;
                    cancelEvents = fst (snd removedAndEvents);
                    syncPoint' = snd (snd removedAndEvents);
                    tree1 = (if spIsEmpty syncPoint' then tremove p (syncPointTree s)
                             else tset p syncPoint' (syncPointTree s));
                    s1 = s\<lparr>syncPointTree := tree1\<rparr>;
                    removingDefault = list_ex loadsAllData removed;
                    covered =
                      (findOnPath p (\<lambda>relativePath parentSyncPoint.
                                       if hasCompleteView parentSyncPoint then Some True else None)
                         tree1 \<noteq> None);
                    s2 = (if removingDefault \<and> \<not> covered \<and> \<not> isEmpty (subtree p tree1)
                          then s1\<lparr>listenProvider := listenProvider s1 @
                                 map (\<lambda>v. StartListening (queryForListening (getQuery v))
                                             (tagForQuery s1 (getQuery v)))
                                   (collectDistinctViewsForSubTree (subtree p tree1))\<rparr>
                          else s1);
                    s3 = (if \<not> covered \<and> removed \<noteq> [] \<and> cancelError = None
                          then (if removingDefault
                                then s2\<lparr>listenProvider := listenProvider s2 @
                                       [StopListening (queryForListening q) None]\<rparr>
                                else s2\<lparr>listenProvider := listenProvider s2 @
                                       map (\<lambda>queryToRemove.
                                              StopListening (queryForListening queryToRemove)
                                                (queryToTagMap s2 (makeQueryKey queryToRemove)))
                                         removed\<rparr>)
                          else s2)
                in (cancelEvents, removeTags removed s3))
             else ([], s))"

section \<open>The dispatch, with the Sync Point of each event\<close>

text \<open>
  The two helpers again, unchanged but for what they return: each Sync Point they apply
  the operation to is recorded with its path in the Sync Point tree (\<open>here\<close> is the
  path of the subtree handed in) and the events it returned, in the order of the calls.
\<close>

fun descendantsVisits ::
  "('n, 'v, 'r, 'e) env \<Rightarrow> path \<Rightarrow> 'n operation \<Rightarrow> ('v, 'r) syncPoint tree \<Rightarrow> 'n option
   \<Rightarrow> 'n writeTreeRef \<Rightarrow> (path \<times> 'e list) list" where
  "descendantsVisits env here operation (Tree syncPoint cs) serverCache writesCache =
     (let serverCache' = adoptServerCache env serverCache syncPoint;
          results =
            map (\<lambda>(childName, childTree).
                   (let childServerCache = childServerCacheOf env serverCache' childName;
                        childWritesCache = refChild writesCache childName
                    in case operationForChild env operation childName of
                         None \<Rightarrow> []
                       | Some childOperation \<Rightarrow>
                           descendantsVisits env (here @ [childName]) childOperation childTree
                             childServerCache childWritesCache)) cs
      in case syncPoint of
           None \<Rightarrow> concat results
         | Some sp \<Rightarrow>
             concat results
             @ [(here, fst (spApplyOperation env sp operation writesCache serverCache'))])"

function helperVisits ::
  "('n, 'v, 'r, 'e) env \<Rightarrow> path \<Rightarrow> 'n operation \<Rightarrow> ('v, 'r) syncPoint tree \<Rightarrow> 'n option
   \<Rightarrow> 'n writeTreeRef \<Rightarrow> (path \<times> 'e list) list" where
  "helperVisits env here operation (Tree syncPoint cs) serverCache writesCache =
     (if opPath operation = []
      then descendantsVisits env here operation (Tree syncPoint cs) serverCache writesCache
      else
        (let serverCache' = adoptServerCache env serverCache syncPoint;
             childName = hd (opPath operation);
             childOperation = operationForChild env operation childName;
             childResult =
               (case map_of cs childName of
                  None \<Rightarrow> []
                | Some childTree \<Rightarrow>
                    (case childOperation of
                       None \<Rightarrow> []
                     | Some childOp \<Rightarrow>
                         (let childServerCache = childServerCacheOf env serverCache' childName;
                              childWritesCache = refChild writesCache childName
                          in helperVisits env (here @ [childName]) childOp childTree
                               childServerCache childWritesCache)))
         in case syncPoint of
              None \<Rightarrow> childResult
            | Some sp \<Rightarrow>
                childResult
                @ [(here, fst (spApplyOperation env sp operation writesCache serverCache'))]))"
  by pat_completeness auto
termination
proof (relation "measure (\<lambda>(env, here, operation, t, serverCache, writesCache). size t)")
  show "wf (measure (\<lambda>(env, here, operation, t, serverCache, writesCache). size t))" by simp
next
  fix env :: "('n, 'v, 'r, 'e) env" and here :: path and operation :: "'n operation"
    and syncPoint :: "('v, 'r) syncPoint option" and cs :: "(string \<times> ('v, 'r) syncPoint tree) list"
    and serverCache :: "'n option" and writesCache :: "'n writeTreeRef"
    and x xa xb x2 x2a xc xd
  assume "map_of cs xa = Some x2"
  then have "(xa, x2) \<in> set cs" by (rule map_of_SomeD)
  then have "size x2 < Suc (size_list (size_prod (\<lambda>x. 0) size) cs)"
    by (induction cs) auto
  then show "((env, here @ [xa], x2a, x2, xc, xd), env, here, operation, Tree syncPoint cs,
        serverCache, writesCache)
      \<in> measure (\<lambda>(env, here, operation, t, serverCache, writesCache). size t)"
    by simp
qed

text \<open>
  Deepest first: no path of the list is followed, anywhere later in the list, by one of
  its strict descendants.
\<close>

definition deepestFirst :: "path list \<Rightarrow> bool" where
  "deepestFirst ps = sorted_wrt (\<lambda>earlier later. \<not> strict_prefix earlier later) ps"

text \<open>
  The two parts of what \<open>descendantsVisits\<close> returns: the visits below one child, and
  the visit of the Sync Point here, if there is one.
\<close>

definition childVisits ::
  "('n, 'v, 'r, 'e) env \<Rightarrow> path \<Rightarrow> 'n operation \<Rightarrow> 'n option \<Rightarrow> 'n writeTreeRef
   \<Rightarrow> string \<times> ('v, 'r) syncPoint tree \<Rightarrow> (path \<times> 'e list) list" where
  "childVisits env here operation serverCache' writesCache kc =
     (case operationForChild env operation (fst kc) of
        None \<Rightarrow> []
      | Some childOperation \<Rightarrow>
          descendantsVisits env (here @ [fst kc]) childOperation (snd kc)
            (childServerCacheOf env serverCache' (fst kc)) (refChild writesCache (fst kc)))"

definition ownVisit ::
  "('n, 'v, 'r, 'e) env \<Rightarrow> path \<Rightarrow> 'n operation \<Rightarrow> ('v, 'r) syncPoint option \<Rightarrow> 'n option
   \<Rightarrow> 'n writeTreeRef \<Rightarrow> (path \<times> 'e list) list" where
  "ownVisit env here operation syncPoint serverCache' writesCache =
     (case syncPoint of
        None \<Rightarrow> []
      | Some sp \<Rightarrow> [(here, fst (spApplyOperation env sp operation writesCache serverCache'))])"

section \<open>The tag registry and the views\<close>

text \<open>
  The views a Sync Point tree holds: the path of the Sync Point, the key of the view in
  it, and the view's query. \<^verbatim>\<open>spEntries\<close> is the same for one Sync Point.
\<close>

definition viewEntries :: "('v, 'r) syncPoint tree \<Rightarrow> (path \<times> string \<times> query) set" where
  "viewEntries t =
     {(p, queryId, q). \<exists>sp v. tget p t = Some sp \<and> (queryId, v) \<in> set sp \<and> getQuery v = q}"

definition spEntries :: "('v, 'r) syncPoint \<Rightarrow> (string \<times> query) set" where
  "spEntries sp = (\<lambda>kv. (fst kv, getQuery (snd kv))) ` set sp"

text \<open>Whether \<^verbatim>\<open>removeEventRegistration\<close> of the Sync Point deletes this view.\<close>

definition viewDeleted ::
  "('n, 'v, 'r, 'e) env \<Rightarrow> query \<Rightarrow> 'r option \<Rightarrow> string option \<Rightarrow> string \<times> ('v, 'r) view \<Rightarrow> bool" where
  "viewDeleted env q registration cancelError kv =
     snd (snd (removeFromView env q registration cancelError kv))"

text \<open>
  One round of the loop of \<^verbatim>\<open>removeTags_\<close>, and the keys the whole loop deletes.
\<close>

definition removeTag :: "('n, 'v, 'r) syncTree \<Rightarrow> query \<Rightarrow> ('n, 'v, 'r) syncTree" where
  "removeTag s removedQuery =
     (if \<not> loadsAllData removedQuery
      then (let removedQueryKey = makeQueryKey removedQuery;
                removedQueryTag = queryToTagMap s removedQueryKey
            in s\<lparr>queryToTagMap := (queryToTagMap s)(removedQueryKey := None),
                 tagToQueryMap :=
                   (case removedQueryTag of
                      None \<Rightarrow> tagToQueryMap s
                    | Some t \<Rightarrow> (tagToQueryMap s)(t := None))\<rparr>)
      else s)"

definition removedKeys :: "query list \<Rightarrow> string set" where
  "removedKeys qs = makeQueryKey ` {q \<in> set qs. \<not> loadsAllData q}"

text \<open>
  What the registration functions keep true of a Sync Tree. The two tag maps are inverse
  to each other, and every tag is below the counter. Every Sync Point in the tree has a
  view, its views have distinct keys, and every view has a registration. Every view whose
  query does not load all data has a tag under its query key; every tagged key is the key
  of such a view; and two such views with one key are one view.
\<close>

definition tagsInverse :: "('n, 'v, 'r) syncTree \<Rightarrow> bool" where
  "tagsInverse s = (\<forall>t k. (tagToQueryMap s t = Some k) = (queryToTagMap s k = Some t))"

definition tagsFresh :: "('n, 'v, 'r) syncTree \<Rightarrow> bool" where
  "tagsFresh s = (\<forall>k t. queryToTagMap s k = Some t \<longrightarrow> t < nextQueryTag s)"

definition treeShape :: "('n, 'v, 'r) syncTree \<Rightarrow> bool" where
  "treeShape s =
     (\<forall>p sp. tget p (syncPointTree s) = Some sp \<longrightarrow>
        distinct (map fst sp) \<and> sp \<noteq> [] \<and> (\<forall>kv \<in> set sp. eventRegistrations (snd kv) \<noteq> []))"

definition viewsTagged :: "('n, 'v, 'r) syncTree \<Rightarrow> bool" where
  "viewsTagged s =
     (\<forall>p i qr. (p, i, qr) \<in> viewEntries (syncPointTree s) \<longrightarrow> \<not> loadsAllData qr \<longrightarrow>
        queryToTagMap s (makeQueryKey qr) \<noteq> None)"

definition tagsViewed :: "('n, 'v, 'r) syncTree \<Rightarrow> bool" where
  "tagsViewed s =
     (\<forall>k t. queryToTagMap s k = Some t \<longrightarrow>
        (\<exists>p i qr. (p, i, qr) \<in> viewEntries (syncPointTree s) \<and> makeQueryKey qr = k
           \<and> \<not> loadsAllData qr))"

definition keysUnique :: "('n, 'v, 'r) syncTree \<Rightarrow> bool" where
  "keysUnique s =
     (\<forall>p i qr p' i' qr'.
        (p, i, qr) \<in> viewEntries (syncPointTree s) \<longrightarrow>
        (p', i', qr') \<in> viewEntries (syncPointTree s) \<longrightarrow>
        \<not> loadsAllData qr \<longrightarrow> \<not> loadsAllData qr' \<longrightarrow>
        makeQueryKey qr = makeQueryKey qr' \<longrightarrow> p = p' \<and> i = i')"

definition registryInvariant :: "('n, 'v, 'r) syncTree \<Rightarrow> bool" where
  "registryInvariant s =
     (tagsInverse s \<and> tagsFresh s \<and> treeShape s \<and> viewsTagged s \<and> tagsViewed s
      \<and> keysUnique s)"

text \<open>
  Two Sync Points with the same views but for their caches, which is all that applying
  an operation changes; and two trees with such Sync Points at every path.
\<close>

definition viewShape :: "string \<times> ('v, 'r) view \<Rightarrow> string \<times> query \<times> 'r list" where
  "viewShape kv = (fst kv, getQuery (snd kv), eventRegistrations (snd kv))"

definition sameViews :: "('v, 'r) syncPoint \<Rightarrow> ('v, 'r) syncPoint \<Rightarrow> bool" where
  "sameViews sp sp' = (map viewShape sp = map viewShape sp')"

definition sameTree :: "('v, 'r) syncPoint tree \<Rightarrow> ('v, 'r) syncPoint tree \<Rightarrow> bool" where
  "sameTree t t' = (\<forall>p. rel_option sameViews (tget p t) (tget p t'))"

text \<open>
  The states of a Sync Tree: the new one, and what each function that changes the state
  makes of a state when it returns. A call that fails an assertion returns no state.
\<close>

inductive reachable :: "('n, 'v, 'r, 'e) env \<Rightarrow> ('n, 'v, 'r) syncTree \<Rightarrow> bool"
  for env :: "('n, 'v, 'r, 'e) env" where
  new: "reachable env newSyncTree"
| added: "reachable env s \<Longrightarrow> addEventRegistration env q registration s = Inr (events, s')
    \<Longrightarrow> reachable env s'"
| removed: "reachable env s
    \<Longrightarrow> removeEventRegistration env q registration cancelError s = (events, s')
    \<Longrightarrow> reachable env s'"
| userOverwrite: "reachable env s
    \<Longrightarrow> applyUserOverwrite env p newData wid vis s = (events, s')
    \<Longrightarrow> reachable env s'"
| userMerge: "reachable env s
    \<Longrightarrow> applyUserMerge env p changedChildren wid s = (events, s')
    \<Longrightarrow> reachable env s'"
| acked: "reachable env s \<Longrightarrow> ackUserWrite env wid revert s = Inr (events, s')
    \<Longrightarrow> reachable env s'"
| serverOverwrite: "reachable env s \<Longrightarrow> applyServerOverwrite env p newData s = (events, s')
    \<Longrightarrow> reachable env s'"
| serverMerge: "reachable env s
    \<Longrightarrow> applyServerMerge env p changedChildren s = (events, s')
    \<Longrightarrow> reachable env s'"
| listenComplete: "reachable env s \<Longrightarrow> applyListenComplete env p s = (events, s')
    \<Longrightarrow> reachable env s'"
| taggedOverwrite: "reachable env s
    \<Longrightarrow> applyTaggedQueryOverwrite env p newData tag s = Inr (events, s')
    \<Longrightarrow> reachable env s'"
| taggedMerge: "reachable env s
    \<Longrightarrow> applyTaggedQueryMerge env p changedChildren tag s = Inr (events, s')
    \<Longrightarrow> reachable env s'"
| taggedListenComplete: "reachable env s
    \<Longrightarrow> applyTaggedListenComplete env p tag s = Inr (events, s')
    \<Longrightarrow> reachable env s'"

section \<open>A small instance\<close>

text \<open>
  An instance of the parameters for evaluating the definitions: nodes are numbers, a
  view's cache is trivial, an event is a string, an operation reaches every child
  unchanged, and a view answers an operation with its query identifier as its one event.
\<close>

definition unitEnv :: "(nat, unit, nat, string) env" where
  "unitEnv = \<lparr>EMPTY_NODE = 0, getImmediateChild = (\<lambda>n k. n),
     updateImmediateChild = (\<lambda>n k c. n + c),
     operationForChild = (\<lambda>operation k. Some operation),
     newViewCache = (\<lambda>q w n c. ()), getInitialEvents = (\<lambda>v r. [''value'']),
     viewApplyOperation = (\<lambda>v operation w c. ([queryIdentifier (getQuery v)], ())),
     viewGetCompleteServerCache = (\<lambda>v p. None),
     createCancelEvent = (\<lambda>r e p. Some ''cancel''),
     startListening = (\<lambda>q t v. [])\<rparr>"

text \<open>
  Two queries at \<^verbatim>\<open>/a\<close>, the default one and one with a limit, and the states a new
  Sync Tree is in after registering the one or the other.
\<close>

definition defaultAtA :: query where
  "defaultAtA = \<lparr>qpath = [''a''], queryIdentifier = ''default'', loadsAllData = True,
     isDefault = True\<rparr>"

definition limitAtA :: query where
  "limitAtA = \<lparr>qpath = [''a''], queryIdentifier = ''{l:5}'', loadsAllData = False,
     isDefault = False\<rparr>"

definition defaultViewAtA :: "(unit, nat) syncPoint" where
  "defaultViewAtA = [(''default'', \<lparr>getQuery = defaultAtA, eventRegistrations = [1], viewCache = ()\<rparr>)]"

definition limitViewAtA :: "(unit, nat) syncPoint" where
  "limitViewAtA = [(''{l:5}'', \<lparr>getQuery = limitAtA, eventRegistrations = [1], viewCache = ()\<rparr>)]"

definition stateDefaultAtA :: "(nat, unit, nat) syncTree" where
  "stateDefaultAtA = \<lparr>syncPointTree = Tree None [(''a'', Tree (Some defaultViewAtA) [])],
     pendingWriteTree = [], tagToQueryMap = Map.empty, queryToTagMap = Map.empty,
     nextQueryTag = 1, listenProvider = [StartListening defaultAtA None]\<rparr>"

definition stateLimitAtA :: "(nat, unit, nat) syncTree" where
  "stateLimitAtA = \<lparr>syncPointTree = Tree None [(''a'', Tree (Some limitViewAtA) [])],
     pendingWriteTree = [], tagToQueryMap = [1 \<mapsto> ''/a${l:5}''],
     queryToTagMap = [''/a${l:5}'' \<mapsto> 1],
     nextQueryTag = 2, listenProvider = [StartListening limitAtA (Some 1)]\<rparr>"

text \<open>
  A state with a filtered view at the root and a default view at \<^verbatim>\<open>/a\<close>.
\<close>

definition stateNested :: "(nat, unit, nat) syncTree" where
  "stateNested = \<lparr>syncPointTree =
       Tree (Some [(''{l:5}'', \<lparr>getQuery = \<lparr>qpath = [], queryIdentifier = ''{l:5}'',
                      loadsAllData = False, isDefault = False\<rparr>,
                    eventRegistrations = [1], viewCache = ()\<rparr>)])
         [(''a'', Tree (Some [(''default'', \<lparr>getQuery = \<lparr>qpath = [''a''], queryIdentifier = ''default'',
                      loadsAllData = True, isDefault = True\<rparr>,
                    eventRegistrations = [2], viewCache = ()\<rparr>)]) [])],
     pendingWriteTree = [], tagToQueryMap = [1 \<mapsto> ''/${l:5}''],
     queryToTagMap = [''/${l:5}'' \<mapsto> 1],
     nextQueryTag = 2,
     listenProvider = [StartListening \<lparr>qpath = [], queryIdentifier = ''{l:5}'',
                      loadsAllData = False, isDefault = False\<rparr> (Some 1),
                       StartListening \<lparr>qpath = [''a''], queryIdentifier = ''default'',
                      loadsAllData = True, isDefault = True\<rparr> None]\<rparr>"

text \<open>
  The Sync Point at \<^verbatim>\<open>/a\<close> with both views, and the state after registering the
  default query and then the one with a limit.
\<close>

definition bothViewsAtA :: "(unit, nat) syncPoint" where
  "bothViewsAtA = [(''default'', \<lparr>getQuery = defaultAtA, eventRegistrations = [1], viewCache = ()\<rparr>),
                   (''{l:5}'', \<lparr>getQuery = limitAtA, eventRegistrations = [2], viewCache = ()\<rparr>)]"

definition stateDefaultThenLimit :: "(nat, unit, nat) syncTree" where
  "stateDefaultThenLimit = \<lparr>syncPointTree = Tree None [(''a'', Tree (Some bothViewsAtA) [])],
     pendingWriteTree = [], tagToQueryMap = [1 \<mapsto> ''/a${l:5}''],
     queryToTagMap = [''/a${l:5}'' \<mapsto> 1],
     nextQueryTag = 2, listenProvider = [StartListening defaultAtA None]\<rparr>"

section \<open>Query keys: results\<close>

lemma splitOn_not_Nil: "splitOn c s \<noteq> []"
  by (induction s) auto

lemma splitOn_append:
  "c \<notin> set k \<Longrightarrow> splitOn c (k @ rest) = (k @ hd (splitOn c rest)) # tl (splitOn c rest)"
  by (induction k) (auto simp: splitOn_not_Nil)

lemma splitOn_keys:
  "list_all plainKey p \<Longrightarrow>
   splitOn (CHR ''/'') (concat (map (\<lambda>k. CHR ''/'' # k) p)) = [] # p"
proof (induction p)
  case Nil
  then show ?case by simp
next
  case (Cons k p)
  then have "CHR ''/'' \<notin> set k" by (simp add: plainKey_def)
  then show ?case using Cons by (simp add: splitOn_append)
qed

lemma concat_keys_plain:
  "list_all plainKey p \<Longrightarrow>
   concat (map (\<lambda>k. if k = [] then [] else CHR ''/'' # k) p) = concat (map (\<lambda>k. CHR ''/'' # k) p)"
  by (induction p) (auto simp: plainKey_def)

lemma pathFromString_pathToString:
  assumes "list_all plainKey p"
  shows "pathFromString (pathToString p) = p"
proof (cases p)
  case Nil
  then show ?thesis by (simp add: pathToString_def pathFromString_def)
next
  case (Cons k ks)
  have ne: "concat (map (\<lambda>k. CHR ''/'' # k) p) \<noteq> []" using Cons by simp
  have "filter (\<lambda>piece. piece \<noteq> []) p = p"
    using assms by (induction p) (auto simp: plainKey_def)
  then show ?thesis
    using assms ne
    by (simp add: pathToString_def pathFromString_def concat_keys_plain splitOn_keys Let_def)
qed

lemma concat_keys_no_dollar:
  "list_all plainKey p \<Longrightarrow> CHR ''$'' \<notin> set (concat (map (\<lambda>k. CHR ''/'' # k) p))"
  by (induction p) (simp_all add: plainKey_def)

lemma pathToString_no_dollar:
  assumes "list_all plainKey p"
  shows "CHR ''$'' \<notin> set (pathToString p)"
proof (cases "concat (map (\<lambda>k. CHR ''/'' # k) p) = []")
  case True
  then show ?thesis using assms by (simp add: pathToString_def concat_keys_plain)
next
  case False
  then show ?thesis
    using assms concat_keys_no_dollar [OF assms]
    by (simp add: pathToString_def concat_keys_plain)
qed

lemma indexOf_first:
  "c \<notin> set pre \<Longrightarrow> indexOf c (pre @ c # post) = int (length pre)"
  by (induction pre) (auto simp: indexOf_def)

text \<open>
  C7, as stated, fails: a path key may hold a dollar sign, and the key is split at the
  first one.
\<close>

theorem parseQueryKey_makeQueryKey_dollar_counterexample:
  "parseQueryKey (makeQueryKey \<lparr>qpath = [''a$b''], queryIdentifier = ''default'',
       loadsAllData = True, isDefault = True\<rparr>)
   = Inr ([''a''], ''b$default'') \<and>
   parseQueryKey (makeQueryKey \<lparr>qpath = [''a$b''], queryIdentifier = ''default'',
       loadsAllData = True, isDefault = True\<rparr>)
   \<noteq> Inr ([''a$b''], ''default'')"
  by (simp add: parseQueryKey_def makeQueryKey_def pathToString_def pathFromString_def
      indexOf_def Let_def)

text \<open>
  C7, amended: for every query whose path keys are non-empty and hold neither a slash nor
  a dollar sign, and whose query identifier is not empty, parsing the query key made for
  it gives back the query's path and its query identifier.
\<close>

theorem parseQueryKey_makeQueryKey:
  assumes "list_all plainKey (qpath q)" and "queryIdentifier q \<noteq> []"
  shows "parseQueryKey (makeQueryKey q) = Inr (qpath q, queryIdentifier q)"
proof -
  let ?s = "pathToString (qpath q)"
  have nd: "CHR ''$'' \<notin> set ?s" using assms(1) by (rule pathToString_no_dollar)
  have idx: "indexOf (CHR ''$'') (?s @ CHR ''$'' # queryIdentifier q) = int (length ?s)"
    using nd by (rule indexOf_first)
  have len: "0 < length (queryIdentifier q)" using assms(2) by simp
  have suc: "nat (int (length ?s) + 1) = Suc (length ?s)" by simp
  show ?thesis
    using idx len assms(1) suc
    by (simp add: parseQueryKey_def makeQueryKey_def Let_def pathFromString_pathToString)
qed

theorem parseQueryKey_makeQueryKey_witness:
  "list_all plainKey [''users'', ''alice''] \<and> ''{l:5}'' \<noteq> [] \<and>
   parseQueryKey (makeQueryKey \<lparr>qpath = [''users'', ''alice''], queryIdentifier = ''{l:5}'',
       loadsAllData = False, isDefault = False\<rparr>)
   = Inr ([''users'', ''alice''], ''{l:5}'')"
  using parseQueryKey_makeQueryKey [of "\<lparr>qpath = [''users'', ''alice''],
       queryIdentifier = ''{l:5}'', loadsAllData = False, isDefault = False\<rparr>"]
  by (simp add: plainKey_def)

section \<open>The tree: results\<close>

lemma map_of_childInsert: "map_of (childInsert k v cs) = (map_of cs)(k \<mapsto> v)"
  by (induction cs) (auto simp: fun_eq_iff)

lemma childInsert_not_Nil: "childInsert k v cs \<noteq> []"
  by (cases cs) (auto split: if_splits)


lemma map_of_childRemove: "map_of (childRemove k cs) = (map_of cs)(k := None)"
  by (induction cs) (auto simp: childRemove_def fun_eq_iff)

lemma tget_Empty: "tget p Empty = None"
  by (cases p) (simp_all add: Empty_def)

lemma tget_isEmpty: "isEmpty t \<Longrightarrow> tget p t = None"
  by (cases p) (simp_all add: isEmpty_def)

lemma tget_tset: "tget q (tset p x t) = (if q = p then Some x else tget q t)"
proof (induction p arbitrary: q t)
  case Nil
  then show ?case by (cases q) simp_all
next
  case (Cons front rest)
  show ?case
  proof (cases q)
    case Nil
    then show ?thesis by (simp add: Let_def)
  next
    case (Cons k ks)
    then show ?thesis
      using Cons.IH by (auto simp: Let_def map_of_childInsert tget_Empty split: option.splits)
  qed
qed

lemma tget_tremove: "tget q (tremove p t) = (if q = p then None else tget q t)"
proof (induction p arbitrary: q t)
  case Nil
  then show ?case by (cases q) (simp_all add: Empty_def)
next
  case (Cons front rest)
  show ?case
  proof (cases "map_of (tchildren t) front")
    case None
    then show ?thesis by (cases q) auto
  next
    case (Some c)
    show ?thesis
    proof (cases q)
      case Nil
      then show ?thesis using Some by (simp add: Let_def Empty_def)
    next
      case (Cons k ks)
      have IH: "tget ks (tremove rest c) = (if ks = rest then None else tget ks c)"
        by (rule Cons.IH)
      show ?thesis
      proof (cases "k = front")
        case True
        show ?thesis
        proof (cases "isEmpty (tremove rest c)")
          case e: True
          then have "tget ks (tremove rest c) = None" by (rule tget_isEmpty)
          then show ?thesis
            using Some Cons True e IH
            by (auto simp: Let_def Empty_def map_of_childRemove split: if_splits)
        next
          case ne: False
          then show ?thesis
            using Some Cons True IH
            by (auto simp: Let_def Empty_def map_of_childInsert childInsert_not_Nil split: if_splits)
        qed
      next
        case False
        have "map_of (childRemove front (tchildren t)) k = map_of (tchildren t) k"
          using False by (simp add: map_of_childRemove)
        moreover have "map_of (childInsert front (tremove rest c) (tchildren t)) k = map_of (tchildren t) k"
          using False by (simp add: map_of_childInsert)
        moreover have "childRemove front (tchildren t) = [] \<Longrightarrow> map_of (tchildren t) k = None"
          using calculation(1) by (metis map_of.simps(1))
        ultimately show ?thesis
          using Some Cons False
          by (auto simp: Let_def Empty_def split: if_splits option.splits)
      qed
    qed
  qed
qed


lemma tvalue_subtree: "tvalue (subtree p t) = tget p t"
  by (induction p arbitrary: t) (auto simp: Empty_def split: option.splits)

lemma relativePath_append: "relativePath q (q @ r) = Inr r"
  by (induction q) auto

lemma foreachOnPath'_prefix:
  "(q, sp) \<in> set (foreachOnPath' follow cur t) \<Longrightarrow> \<exists>r. cur @ follow = q @ r"
proof (induction follow arbitrary: cur t)
  case Nil
  then show ?case by simp
next
  case (Cons front rest)
  then show ?case
    by (fastforce split: option.splits)
qed


section \<open>Tagged operations and user writes: results\<close>

text \<open>
  C3: for a tag that \<^verbatim>\<open>tagToQueryMap_\<close> does not hold, each of the three tagged
  entry points returns no events and leaves the whole state as it was.
\<close>

theorem tagged_unknown_tag_dropped:
  assumes "tagToQueryMap s tag = None"
  shows "applyTaggedQueryOverwrite env p snap tag s = Inr ([], s)
       \<and> applyTaggedQueryMerge env p changedChildren tag s = Inr ([], s)
       \<and> applyTaggedListenComplete env p tag s = Inr ([], s)"
  using assms
  by (simp add: applyTaggedQueryOverwrite_def applyTaggedQueryMerge_def
      applyTaggedListenComplete_def queryKeyForTag_def)

theorem tagged_unknown_tag_dropped_witness:
  "tagToQueryMap (newSyncTree :: (nat, unit, nat) syncTree) 42 = None
   \<and> applyTaggedQueryOverwrite unitEnv [''a''] 7 42 newSyncTree = Inr ([], newSyncTree)
   \<and> applyTaggedQueryMerge unitEnv [''a''] [(''b'', 7)] 42 newSyncTree = Inr ([], newSyncTree)
   \<and> applyTaggedListenComplete unitEnv [''a''] 42 newSyncTree = Inr ([], newSyncTree)"
  using tagged_unknown_tag_dropped [of "newSyncTree :: (nat, unit, nat) syncTree" 42 unitEnv "[''a'']" 7 "[(''b'', 7)]"]
  by (simp add: newSyncTree_def)

text \<open>
  C6: \<^verbatim>\<open>applyUserOverwrite\<close> with \<^verbatim>\<open>visible\<close> false appends the write to the pending
  writes and returns no events; with \<^verbatim>\<open>visible\<close> true it returns what dispatching
  \<^verbatim>\<open>Overwrite(User, path, node)\<close> through the Sync Point tree returns, on the state that
  holds the write, and the write stays recorded.
\<close>

theorem applyUserOverwrite_records_and_dispatches:
  "applyUserOverwrite env p node wid False s
     = ([], s\<lparr>pendingWriteTree := pendingWriteTree s
               @ [\<lparr>writeId = wid, wpath = p, wdata = Snap node, visible = False\<rparr>]\<rparr>)
   \<and> applyUserOverwrite env p node wid True s
     = applyOperationToSyncPoints env (Overwrite User p node)
         (s\<lparr>pendingWriteTree := pendingWriteTree s
               @ [\<lparr>writeId = wid, wpath = p, wdata = Snap node, visible = True\<rparr>]\<rparr>)
   \<and> pendingWriteTree (snd (applyUserOverwrite env p node wid True s))
     = pendingWriteTree s @ [\<lparr>writeId = wid, wpath = p, wdata = Snap node, visible = True\<rparr>]"
  by (simp add: applyUserOverwrite_def addOverwrite_def applyOperationToSyncPoints_def Let_def)


lemma applyUserMerge_example:
  "snd (applyUserMerge unitEnv [''a''] [(''b'', 5)] 1 newSyncTree)
   = newSyncTree\<lparr>pendingWriteTree :=
       [\<lparr>writeId = 1, wpath = [''a''], wdata = Children [(''b'', 5)], visible = True\<rparr>]\<rparr>"
  by (simp add: applyUserMerge_def addMerge_def applyOperationToSyncPoints_def Let_def
      newSyncTree_def Empty_def unitEnv_def fromObject_def pathFromString_def)

text \<open>
  C1: the tree of an acknowledged merge holds, at each child path, the child's node and
  not the boolean \<^verbatim>\<open>true\<close> that the overwrite branch stores: the callback's second
  argument is what \<^verbatim>\<open>set\<close> is given. Acknowledging the merge of \<^verbatim>\<open>{b: 5}\<close> at
  \<^verbatim>\<open>/a\<close> dispatches an \<^verbatim>\<open>AckUserWrite\<close> whose tree holds the node 5 at \<^verbatim>\<open>b\<close>.
\<close>

theorem ackUserWrite_merge_affectedTree_holds_node:
  "ackUserWrite unitEnv 1 False (snd (applyUserMerge unitEnv [''a''] [(''b'', 5)] 1 newSyncTree))
   = Inr (applyOperationToSyncPoints unitEnv
            (AckUserWrite [''a''] (Tree None [(''b'', Tree (Some (AffectedNode 5)) [])]) False)
            newSyncTree)
   \<and> tget [''b''] (affectedTreeOf
         \<lparr>writeId = 1, wpath = [''a''], wdata = Children [(''b'', 5::nat)], visible = True\<rparr>)
     = Some (AffectedNode 5)"
  unfolding applyUserMerge_example
  by (simp add: ackUserWrite_def getWrite_def removeWrite_def
      affectedTreeOf_def pathFromString_def Empty_def newSyncTree_def Let_def)


section \<open>Registration: results\<close>

lemma foreachOnPath_prefix:
  "x \<in> set (foreachOnPath p t) \<Longrightarrow> \<exists>r. p = fst x @ r"
  using foreachOnPath'_prefix [of "fst x" "snd x" p "[]" t]
  by (simp add: foreachOnPath_def)

lemma ancestorWalk_ok:
  "\<forall>x \<in> set xs. \<exists>r. p = fst x @ r \<Longrightarrow>
   \<exists>c. ancestorWalk env p xs (c0, f0)
        = Inr (c, f0 \<or> list_ex (\<lambda>x. hasCompleteView (snd x)) xs)"
proof (induction xs arbitrary: c0 f0)
  case Nil
  then show ?case by simp
next
  case (Cons x xs)
  obtain q sp where x: "x = (q, sp)" by (cases x)
  from Cons.prems obtain r where r: "p = q @ r" using x by auto
  have rest: "\<forall>x \<in> set xs. \<exists>r. p = fst x @ r" using Cons.prems by simp
  show ?case
    using Cons.IH [OF rest,
        of "case c0 of None \<Rightarrow> getCompleteServerCache env sp r | Some c \<Rightarrow> Some c"
           "f0 \<or> hasCompleteView sp"] x r
    by (simp add: relativePath_append disj_assoc)
qed

lemma ancestorWalk_foreachOnPath:
  "\<exists>c. ancestorWalk env p (foreachOnPath p t) (None, False)
        = Inr (c, list_ex (\<lambda>x. hasCompleteView (snd x)) (foreachOnPath p t))"
  using ancestorWalk_ok [of "foreachOnPath p t" p env None False] foreachOnPath_prefix [of _ p t]
  by auto

lemma update_absent: "map_of sp k = None \<Longrightarrow> AList.update k v sp = sp @ [(k, v)]"
  by (induction sp) (auto split: if_splits)




lemma newSyncTree_default_registered:
  "addEventRegistration unitEnv defaultAtA 1 newSyncTree = Inr ([''value''], stateDefaultAtA)"
  by (simp add: addEventRegistration_def foreachOnPath_def newSyncTree_def Empty_def
      defaultAtA_def stateDefaultAtA_def defaultViewAtA_def unitEnv_def Let_def
      viewExistsForQuery_def viewForQuery_def getCompleteView_def spAddEventRegistration_def
      setupListener_def tagForQuery_def truthy_def queryForListening_def queriesToStop_def
      tfold_def getQueryViews_def assembledServerCache_def foreachChild_def childWrites_def
      makeQueryKey_def pathToString_def)

lemma newSyncTree_limit_registered:
  "addEventRegistration unitEnv limitAtA 1 newSyncTree = Inr ([''value''], stateLimitAtA)"
  by (simp add: addEventRegistration_def foreachOnPath_def newSyncTree_def Empty_def
      limitAtA_def stateLimitAtA_def limitViewAtA_def unitEnv_def Let_def
      viewExistsForQuery_def viewForQuery_def getCompleteView_def spAddEventRegistration_def
      setupListener_def tagForQuery_def truthy_def queryForListening_def queriesToStop_def
      tfold_def getQueryViews_def assembledServerCache_def foreachChild_def childWrites_def
      makeQueryKey_def pathToString_def hasCompleteView_def fun_eq_iff)

text \<open>
  C10: registering a filtered query that has no view yet, at a path whose own Sync Point
  has a complete view: unless the assertion on the tag map fails, the next tag is
  assigned and entered in both tag maps, the view is made, and the listen provider
  receives no call.
\<close>

theorem filtered_query_under_complete_view_tagged_without_listen:
  assumes "tget (qpath q) (syncPointTree s) = Some sp"
    and "hasCompleteView sp"
    and "\<not> loadsAllData q"
    and "\<not> viewExistsForQuery sp q"
  shows "if queryToTagMap s (makeQueryKey q) \<noteq> None
         then addEventRegistration env q registration s = Inl ViewDoesNotExistButWeHaveATag
         else (\<exists>events s' sp'.
                 addEventRegistration env q registration s = Inr (events, s')
               \<and> queryToTagMap s' = (queryToTagMap s)(makeQueryKey q \<mapsto> nextQueryTag s)
               \<and> tagToQueryMap s' = (tagToQueryMap s)(nextQueryTag s \<mapsto> makeQueryKey q)
               \<and> nextQueryTag s' = nextQueryTag s + 1
               \<and> tget (qpath q) (syncPointTree s') = Some sp'
               \<and> viewExistsForQuery sp' q
               \<and> listenProvider s' = listenProvider s)"
proof -
  obtain c where w: "ancestorWalk env (qpath q) (foreachOnPath (qpath q) (syncPointTree s)) (None, False)
        = Inr (c, list_ex (\<lambda>x. hasCompleteView (snd x)) (foreachOnPath (qpath q) (syncPointTree s)))"
    using ancestorWalk_foreachOnPath by blast
  have v: "map_of (snd (spAddEventRegistration env sp q registration w' c' b')) (queryIdentifier q) \<noteq> None"
    for w' c' b'
    by (simp add: spAddEventRegistration_def Let_def update_conv')
  show ?thesis
    using assms w v
    by (simp add: addEventRegistration_def Let_def tget_tset viewExistsForQuery_def viewForQuery_def)
qed


theorem filtered_query_under_complete_view_tagged_without_listen_witness:
  "tget (qpath limitAtA) (syncPointTree stateDefaultAtA) = Some defaultViewAtA
   \<and> hasCompleteView defaultViewAtA
   \<and> \<not> loadsAllData limitAtA
   \<and> \<not> viewExistsForQuery defaultViewAtA limitAtA
   \<and> (\<exists>events s' sp'.
          addEventRegistration unitEnv limitAtA 2 stateDefaultAtA = Inr (events, s')
        \<and> queryToTagMap s'
            = (queryToTagMap stateDefaultAtA)(makeQueryKey limitAtA \<mapsto> nextQueryTag stateDefaultAtA)
        \<and> tagToQueryMap s'
            = (tagToQueryMap stateDefaultAtA)(nextQueryTag stateDefaultAtA \<mapsto> makeQueryKey limitAtA)
        \<and> nextQueryTag s' = nextQueryTag stateDefaultAtA + 1
        \<and> tget (qpath limitAtA) (syncPointTree s') = Some sp'
        \<and> viewExistsForQuery sp' limitAtA
        \<and> listenProvider s' = listenProvider stateDefaultAtA)"
proof -
  have h1: "tget (qpath limitAtA) (syncPointTree stateDefaultAtA) = Some defaultViewAtA"
    by (simp add: limitAtA_def stateDefaultAtA_def)
  have h2: "hasCompleteView defaultViewAtA"
    by (simp add: hasCompleteView_def getCompleteView_def defaultViewAtA_def defaultAtA_def)
  have h3: "\<not> loadsAllData limitAtA" by (simp add: limitAtA_def)
  have h4: "\<not> viewExistsForQuery defaultViewAtA limitAtA"
    by (simp add: viewExistsForQuery_def viewForQuery_def defaultViewAtA_def limitAtA_def)
  have h5: "queryToTagMap stateDefaultAtA (makeQueryKey limitAtA) = None"
    by (simp add: stateDefaultAtA_def)
  show ?thesis
    using filtered_query_under_complete_view_tagged_without_listen
            [OF h1 h2 h3 h4, of unitEnv 2] h1 h2 h3 h4 h5
    by simp
qed




section \<open>Operation dispatch: results\<close>

lemma descendantsVisits_unfold:
  "descendantsVisits env here operation (Tree syncPoint cs) serverCache writesCache =
     concat (map (childVisits env here operation
                    (adoptServerCache env serverCache syncPoint) writesCache) cs)
     @ ownVisit env here operation syncPoint (adoptServerCache env serverCache syncPoint)
         writesCache"
  by (cases syncPoint)
    (simp_all add: Let_def case_prod_unfold childVisits_def [abs_def] ownVisit_def)

lemma ownVisit_path: "pe \<in> set (ownVisit env here operation syncPoint sc wc) \<Longrightarrow> fst pe = here"
  by (auto simp: ownVisit_def split: option.splits)

lemma descendantsVisits_prefix:
  "pe \<in> set (descendantsVisits env here operation t serverCache writesCache)
   \<Longrightarrow> prefix here (fst pe)"
proof (induction env here operation t serverCache writesCache arbitrary: pe
    rule: descendantsVisits.induct)
  case (1 env here operation syncPoint cs serverCache writesCache)
  let ?sc = "adoptServerCache env serverCache syncPoint"
  from "1.prems" have
    "pe \<in> set (ownVisit env here operation syncPoint ?sc writesCache)
     \<or> (\<exists>kc \<in> set cs. pe \<in> set (childVisits env here operation ?sc writesCache kc))"
    unfolding descendantsVisits_unfold by auto
  then show ?case
  proof
    assume "pe \<in> set (ownVisit env here operation syncPoint ?sc writesCache)"
    then show ?thesis using ownVisit_path by fastforce
  next
    assume "\<exists>kc \<in> set cs. pe \<in> set (childVisits env here operation ?sc writesCache kc)"
    then obtain kc where kc: "kc \<in> set cs"
      and pe: "pe \<in> set (childVisits env here operation ?sc writesCache kc)" by blast
    from pe obtain childOperation where
      cop: "operationForChild env operation (fst kc) = Some childOperation"
      and pe': "pe \<in> set (descendantsVisits env (here @ [fst kc]) childOperation (snd kc)
                  (childServerCacheOf env ?sc (fst kc)) (refChild writesCache (fst kc)))"
      by (cases "operationForChild env operation (fst kc)") (auto simp: childVisits_def)
    have "prefix (here @ [fst kc]) (fst pe)"
      using "1.IH" [OF refl kc _ refl refl cop, of "snd kc" pe] pe' by simp
    then show ?thesis using append_prefixD by blast
  qed
qed


lemma concat_visits:
  "(\<And>kc. kc \<in> set cs \<Longrightarrow> f kc = concat (map snd (g kc)))
   \<Longrightarrow> concat (map f cs) = concat (map snd (concat (map g cs)))"
  by (induction cs) auto

lemma applyOperationDescendantsHelper_events:
  "fst (applyOperationDescendantsHelper env operation (Tree syncPoint cs) serverCache writesCache) =
     concat (map (\<lambda>kc.
        case operationForChild env operation (fst kc) of
          None \<Rightarrow> []
        | Some childOperation \<Rightarrow>
            fst (applyOperationDescendantsHelper env childOperation (snd kc)
                   (childServerCacheOf env (adoptServerCache env serverCache syncPoint) (fst kc))
                   (refChild writesCache (fst kc)))) cs)
     @ (case syncPoint of
          None \<Rightarrow> []
        | Some sp \<Rightarrow> fst (spApplyOperation env sp operation writesCache
                           (adoptServerCache env serverCache syncPoint)))"
  by (cases syncPoint)
    (simp_all add: Let_def case_prod_unfold comp_def option.case_distrib [of fst]
      cong: option.case_cong)

lemma descendants_events_are_visits:
  "fst (applyOperationDescendantsHelper env operation t serverCache writesCache)
   = concat (map snd (descendantsVisits env here operation t serverCache writesCache))"
proof (induction env here operation t serverCache writesCache rule: descendantsVisits.induct)
  case (1 env here operation syncPoint cs serverCache writesCache)
  let ?sc = "adoptServerCache env serverCache syncPoint"
  have child: "(case operationForChild env operation (fst kc) of
          None \<Rightarrow> []
        | Some childOperation \<Rightarrow>
            fst (applyOperationDescendantsHelper env childOperation (snd kc)
                   (childServerCacheOf env ?sc (fst kc)) (refChild writesCache (fst kc))))
      = concat (map snd (childVisits env here operation ?sc writesCache kc))"
    if "kc \<in> set cs" for kc
  proof (cases "operationForChild env operation (fst kc)")
    case None
    then show ?thesis by (simp add: childVisits_def)
  next
    case (Some childOperation)
    then show ?thesis
      using "1.IH" [OF refl that _ refl refl Some, of "snd kc"]
      by (simp add: childVisits_def)
  qed
  show ?case
    unfolding descendantsVisits_unfold applyOperationDescendantsHelper_events
    using concat_visits [of cs _ "childVisits env here operation ?sc writesCache", OF child]
    by (simp add: ownVisit_def split: option.split)
qed


declare descendantsVisits.simps [simp del] applyOperationDescendantsHelper.simps [simp del]

lemma helperVisits_unfold:
  "helperVisits env here operation (Tree syncPoint cs) serverCache writesCache =
     (if opPath operation = []
      then descendantsVisits env here operation (Tree syncPoint cs) serverCache writesCache
      else
        (case map_of cs (hd (opPath operation)) of
           None \<Rightarrow> []
         | Some childTree \<Rightarrow>
             (case operationForChild env operation (hd (opPath operation)) of
                None \<Rightarrow> []
              | Some childOp \<Rightarrow>
                  helperVisits env (here @ [hd (opPath operation)]) childOp childTree
                    (childServerCacheOf env (adoptServerCache env serverCache syncPoint)
                       (hd (opPath operation)))
                    (refChild writesCache (hd (opPath operation)))))
        @ ownVisit env here operation syncPoint (adoptServerCache env serverCache syncPoint)
            writesCache)"
  by (cases syncPoint) (simp_all add: Let_def ownVisit_def cong: option.case_cong)

declare helperVisits.simps [simp del]

lemma applyOperationHelper_events:
  "fst (applyOperationHelper env operation (Tree syncPoint cs) serverCache writesCache) =
     (if opPath operation = []
      then fst (applyOperationDescendantsHelper env operation (Tree syncPoint cs) serverCache
                  writesCache)
      else
        (case map_of cs (hd (opPath operation)) of
           None \<Rightarrow> []
         | Some childTree \<Rightarrow>
             (case operationForChild env operation (hd (opPath operation)) of
                None \<Rightarrow> []
              | Some childOp \<Rightarrow>
                  fst (applyOperationHelper env childOp childTree
                    (childServerCacheOf env (adoptServerCache env serverCache syncPoint)
                       (hd (opPath operation)))
                    (refChild writesCache (hd (opPath operation))))))
        @ (case syncPoint of
             None \<Rightarrow> []
           | Some sp \<Rightarrow> fst (spApplyOperation env sp operation writesCache
                              (adoptServerCache env serverCache syncPoint))))"
  by (cases syncPoint) (simp_all add: Let_def split: option.split)

declare applyOperationHelper.simps [simp del]

lemma helper_events_are_visits:
  "fst (applyOperationHelper env operation t serverCache writesCache)
   = concat (map snd (helperVisits env here operation t serverCache writesCache))"
proof (induction env here operation t serverCache writesCache rule: helperVisits.induct)
  case (1 env here operation syncPoint cs serverCache writesCache)
  show ?case
  proof (cases "opPath operation = []")
    case True
    then show ?thesis
      unfolding helperVisits_unfold applyOperationHelper_events
      by (simp add: descendants_events_are_visits [of _ _ _ _ _ here])
  next
    case False
    show ?thesis
    proof (cases "map_of cs (hd (opPath operation))")
      case None
      then show ?thesis
        unfolding helperVisits_unfold applyOperationHelper_events
        using False by (simp add: ownVisit_def split: option.split)
    next
      case (Some childTree)
      show ?thesis
      proof (cases "operationForChild env operation (hd (opPath operation))")
        case None
        then show ?thesis
          unfolding helperVisits_unfold applyOperationHelper_events
          using False Some by (simp add: ownVisit_def split: option.split)
      next
        case cop: (Some childOp)
        show ?thesis
          unfolding helperVisits_unfold applyOperationHelper_events
          using False Some cop "1.IH" [OF False refl refl refl Some cop refl refl]
          by (simp add: ownVisit_def split: option.split)
      qed
    qed
  qed
qed

lemma helperVisits_prefix:
  "pe \<in> set (helperVisits env here operation t serverCache writesCache)
   \<Longrightarrow> prefix here (fst pe)"
proof (induction env here operation t serverCache writesCache arbitrary: pe
    rule: helperVisits.induct)
  case (1 env here operation syncPoint cs serverCache writesCache)
  show ?case
  proof (cases "opPath operation = []")
    case True
    then have "pe \<in> set (descendantsVisits env here operation (Tree syncPoint cs) serverCache
                 writesCache)"
      using "1.prems" unfolding helperVisits_unfold by simp
    then show ?thesis by (rule descendantsVisits_prefix)
  next
    case False
    let ?k = "hd (opPath operation)"
    let ?sc = "adoptServerCache env serverCache syncPoint"
    from "1.prems" False have
      "pe \<in> set (ownVisit env here operation syncPoint ?sc writesCache)
       \<or> (\<exists>childTree childOp. map_of cs ?k = Some childTree
            \<and> operationForChild env operation ?k = Some childOp
            \<and> pe \<in> set (helperVisits env (here @ [?k]) childOp childTree
                  (childServerCacheOf env ?sc ?k) (refChild writesCache ?k)))"
      unfolding helperVisits_unfold
      by (cases "map_of cs ?k"; cases "operationForChild env operation ?k") auto
    then show ?thesis
    proof
      assume "pe \<in> set (ownVisit env here operation syncPoint ?sc writesCache)"
      then show ?thesis using ownVisit_path by fastforce
    next
      assume "\<exists>childTree childOp. map_of cs ?k = Some childTree
            \<and> operationForChild env operation ?k = Some childOp
            \<and> pe \<in> set (helperVisits env (here @ [?k]) childOp childTree
                  (childServerCacheOf env ?sc ?k) (refChild writesCache ?k))"
      then obtain childTree childOp where ct: "map_of cs ?k = Some childTree"
        and cop: "operationForChild env operation ?k = Some childOp"
        and pe: "pe \<in> set (helperVisits env (here @ [?k]) childOp childTree
                  (childServerCacheOf env ?sc ?k) (refChild writesCache ?k))" by blast
      have "prefix (here @ [?k]) (fst pe)"
        using "1.IH" [OF False refl refl refl ct cop refl refl pe] .
      then show ?thesis using append_prefixD by blast
    qed
  qed
qed


lemma prefixes_same_length:
  "prefix a y \<Longrightarrow> prefix b y \<Longrightarrow> length a = length b \<Longrightarrow> a = b"
  by (auto simp: prefix_def append_eq_append_conv)

lemma deepestFirst_append_own:
  assumes "deepestFirst (map fst vs)"
    and "\<And>pe. pe \<in> set vs \<Longrightarrow> \<exists>k. prefix (here @ [k]) (fst pe)"
  shows "deepestFirst (map fst vs @ [here])"
proof -
  have "\<not> strict_prefix (fst pe) here" if mem: "pe \<in> set vs" for pe
  proof
    assume "strict_prefix (fst pe) here"
    then have "length (fst pe) < length here" by (rule prefix_length_less)
    moreover obtain k where "prefix (here @ [k]) (fst pe)" using assms(2) [OF mem] by blast
    then have "length (here @ [k]) \<le> length (fst pe)" by (rule prefix_length_le)
    ultimately show False by simp
  qed
  then show ?thesis using assms(1) by (simp add: deepestFirst_def sorted_wrt_append)
qed

lemma deepestFirst_children:
  assumes "distinct (map fst cs)"
    and "\<And>kc. kc \<in> set cs \<Longrightarrow> deepestFirst (map fst (g kc))"
    and "\<And>kc pe. kc \<in> set cs \<Longrightarrow> pe \<in> set (g kc) \<Longrightarrow> prefix (here @ [fst kc]) (fst pe)"
  shows "deepestFirst (map fst (concat (map g cs)))"
  using assms
proof (induction cs)
  case Nil
  then show ?case by (simp add: deepestFirst_def)
next
  case (Cons kc cs)
  have rest: "deepestFirst (map fst (concat (map g cs)))"
    using Cons.IH Cons.prems by simp
  have first: "deepestFirst (map fst (g kc))" using Cons.prems(2) by simp
  have cross: "\<not> strict_prefix (fst x) (fst y)"
    if x: "x \<in> set (g kc)" and y: "y \<in> set (concat (map g cs))" for x y
  proof
    assume sp: "strict_prefix (fst x) (fst y)"
    from y obtain kc' where kc': "kc' \<in> set cs" and y': "y \<in> set (g kc')" by auto
    have px: "prefix (here @ [fst kc]) (fst x)" using Cons.prems(3) [of kc x] x by simp
    have py: "prefix (here @ [fst kc']) (fst y)" using Cons.prems(3) [of kc' y] kc' y' by simp
    have "prefix (here @ [fst kc]) (fst y)"
      using px sp by (meson prefix_order.order_trans strict_prefix_def)
    then have "here @ [fst kc] = here @ [fst kc']"
      using py by (rule prefixes_same_length) simp
    then have "fst kc = fst kc'" by simp
    then show False using Cons.prems(1) kc' by force
  qed
  have crossAll: "\<forall>p \<in> set (map fst (g kc)). \<forall>p' \<in> set (map fst (concat (map g cs))).
      \<not> strict_prefix p p'"
  proof (intro ballI)
    fix p p'
    assume "p \<in> set (map fst (g kc))" and "p' \<in> set (map fst (concat (map g cs)))"
    then obtain x y where "x \<in> set (g kc)" "p = fst x" "y \<in> set (concat (map g cs))" "p' = fst y"
      by (metis (no_types, lifting) image_iff list.set_map)
    then show "\<not> strict_prefix p p'" using cross by blast
  qed
  have eq: "map fst (concat (map g (kc # cs))) = map fst (g kc) @ map fst (concat (map g cs))"
    by simp
  show ?case
    unfolding eq deepestFirst_def sorted_wrt_append
    using first rest crossAll unfolding deepestFirst_def by blast
qed

lemma distinctKeys_child:
  "distinctKeys (Tree v cs) \<Longrightarrow> kc \<in> set cs \<Longrightarrow> distinctKeys (snd kc)"
  by (simp add: list_all_iff)

lemma descendantsVisits_deepestFirst:
  "distinctKeys t \<Longrightarrow>
   deepestFirst (map fst (descendantsVisits env here operation t serverCache writesCache))"
proof (induction env here operation t serverCache writesCache rule: descendantsVisits.induct)
  case (1 env here operation syncPoint cs serverCache writesCache)
  let ?sc = "adoptServerCache env serverCache syncPoint"
  let ?g = "childVisits env here operation ?sc writesCache"
  have d: "distinct (map fst cs)" using "1.prems" by simp
  have each: "deepestFirst (map fst (?g kc))" if "kc \<in> set cs" for kc
  proof (cases "operationForChild env operation (fst kc)")
    case None
    then show ?thesis by (simp add: childVisits_def deepestFirst_def)
  next
    case (Some childOperation)
    have "distinctKeys (snd kc)" using "1.prems" that by (rule distinctKeys_child)
    then show ?thesis
      using "1.IH" [OF refl that _ refl refl Some, of "snd kc"] Some
      by (simp add: childVisits_def)
  qed
  have pre: "prefix (here @ [fst kc]) (fst pe)" if "kc \<in> set cs" "pe \<in> set (?g kc)" for kc pe
  proof (cases "operationForChild env operation (fst kc)")
    case None
    then show ?thesis using that(2) by (simp add: childVisits_def)
  next
    case (Some childOperation)
    then have "pe \<in> set (descendantsVisits env (here @ [fst kc]) childOperation (snd kc)
            (childServerCacheOf env ?sc (fst kc)) (refChild writesCache (fst kc)))"
      using that(2) by (simp add: childVisits_def)
    then show ?thesis by (rule descendantsVisits_prefix)
  qed
  have below: "deepestFirst (map fst (concat (map ?g cs)))"
    using d each pre by (rule deepestFirst_children)
  show ?case
  proof (cases syncPoint)
    case None
    then show ?thesis
      using below unfolding descendantsVisits_unfold by (simp add: ownVisit_def)
  next
    case (Some sp)
    have "\<exists>k. prefix (here @ [k]) (fst pe)" if "pe \<in> set (concat (map ?g cs))" for pe
    proof -
      from that have "\<exists>kc. kc \<in> set cs \<and> pe \<in> set (?g kc)" by auto
      then show ?thesis using pre by blast
    qed
    with below have "deepestFirst (map fst (concat (map ?g cs)) @ [here])"
      by (rule deepestFirst_append_own)
    then show ?thesis
      using Some unfolding descendantsVisits_unfold by (simp add: ownVisit_def)
  qed
qed

lemma helperVisits_deepestFirst:
  "distinctKeys t \<Longrightarrow>
   deepestFirst (map fst (helperVisits env here operation t serverCache writesCache))"
proof (induction env here operation t serverCache writesCache rule: helperVisits.induct)
  case (1 env here operation syncPoint cs serverCache writesCache)
  show ?case
  proof (cases "opPath operation = []")
    case True
    then show ?thesis
      using descendantsVisits_deepestFirst [OF "1.prems"] unfolding helperVisits_unfold by simp
  next
    case False
    let ?k = "hd (opPath operation)"
    let ?sc = "adoptServerCache env serverCache syncPoint"
    let ?below = "case map_of cs ?k of
           None \<Rightarrow> []
         | Some childTree \<Rightarrow>
             (case operationForChild env operation ?k of
                None \<Rightarrow> []
              | Some childOp \<Rightarrow>
                  helperVisits env (here @ [?k]) childOp childTree
                    (childServerCacheOf env ?sc ?k) (refChild writesCache ?k))"
    have below: "deepestFirst (map fst ?below)
        \<and> (\<forall>pe \<in> set ?below. prefix (here @ [?k]) (fst pe))"
    proof (cases "map_of cs ?k")
      case None
      then show ?thesis by (simp add: deepestFirst_def)
    next
      case (Some childTree)
      show ?thesis
      proof (cases "operationForChild env operation ?k")
        case None
        then show ?thesis using Some by (simp add: deepestFirst_def)
      next
        case cop: (Some childOp)
        have "(?k, childTree) \<in> set cs" using Some by (rule map_of_SomeD)
        then have "distinctKeys childTree"
          using "1.prems" distinctKeys_child by fastforce
        then show ?thesis
          using "1.IH" [OF False refl refl refl Some cop refl refl] Some cop helperVisits_prefix
          by auto
      qed
    qed
    show ?thesis
    proof (cases syncPoint)
      case None
      then show ?thesis
        using False below unfolding helperVisits_unfold by (simp add: ownVisit_def)
    next
      case (Some sp)
      have "\<exists>k. prefix (here @ [k]) (fst pe)" if "pe \<in> set ?below" for pe
        using below that by blast
      with below have "deepestFirst (map fst ?below @ [here])"
        using deepestFirst_append_own [of ?below here] by blast
      then show ?thesis
        using False Some unfolding helperVisits_unfold by (simp add: ownVisit_def)
    qed
  qed
qed


lemma ownVisit_at:
  "pe \<in> set (ownVisit env here operation syncPoint sc wc) \<Longrightarrow> syncPoint \<noteq> None"
  by (auto simp: ownVisit_def)

lemma descendantsVisits_at:
  "distinctKeys t \<Longrightarrow> pe \<in> set (descendantsVisits env here operation t serverCache writesCache)
   \<Longrightarrow> \<exists>r. fst pe = here @ r \<and> tget r t \<noteq> None"
proof (induction env here operation t serverCache writesCache arbitrary: pe
    rule: descendantsVisits.induct)
  case (1 env here operation syncPoint cs serverCache writesCache)
  let ?sc = "adoptServerCache env serverCache syncPoint"
  have d: "distinct (map fst cs)" using "1.prems"(1) by simp
  from "1.prems"(2) have
    "pe \<in> set (ownVisit env here operation syncPoint ?sc writesCache)
     \<or> (\<exists>kc \<in> set cs. pe \<in> set (childVisits env here operation ?sc writesCache kc))"
    unfolding descendantsVisits_unfold by auto
  then show ?case
  proof
    assume own: "pe \<in> set (ownVisit env here operation syncPoint ?sc writesCache)"
    then have "fst pe = here @ []" using ownVisit_path by fastforce
    moreover have "tget [] (Tree syncPoint cs) \<noteq> None" using own ownVisit_at by fastforce
    ultimately show ?thesis by blast
  next
    assume "\<exists>kc \<in> set cs. pe \<in> set (childVisits env here operation ?sc writesCache kc)"
    then obtain kc where kc: "kc \<in> set cs"
      and pe: "pe \<in> set (childVisits env here operation ?sc writesCache kc)" by blast
    from pe obtain childOperation where
      cop: "operationForChild env operation (fst kc) = Some childOperation"
      and pe': "pe \<in> set (descendantsVisits env (here @ [fst kc]) childOperation (snd kc)
                  (childServerCacheOf env ?sc (fst kc)) (refChild writesCache (fst kc)))"
      by (cases "operationForChild env operation (fst kc)") (auto simp: childVisits_def)
    have dk: "distinctKeys (snd kc)" using "1.prems"(1) kc by (rule distinctKeys_child)
    obtain r where r: "fst pe = (here @ [fst kc]) @ r" "tget r (snd kc) \<noteq> None"
      using "1.IH" [OF refl kc prod.collapse refl refl cop dk pe'] by auto
    have "map_of cs (fst kc) = Some (snd kc)"
      using d kc by (simp add: map_of_is_SomeI)
    then have "tget (fst kc # r) (Tree syncPoint cs) \<noteq> None" using r(2) by simp
    moreover have "fst pe = here @ (fst kc # r)" using r(1) by simp
    ultimately show ?thesis by blast
  qed
qed

lemma helperVisits_at:
  "distinctKeys t \<Longrightarrow> pe \<in> set (helperVisits env here operation t serverCache writesCache)
   \<Longrightarrow> \<exists>r. fst pe = here @ r \<and> tget r t \<noteq> None"
proof (induction env here operation t serverCache writesCache arbitrary: pe
    rule: helperVisits.induct)
  case (1 env here operation syncPoint cs serverCache writesCache)
  show ?case
  proof (cases "opPath operation = []")
    case True
    then have "pe \<in> set (descendantsVisits env here operation (Tree syncPoint cs) serverCache
                 writesCache)"
      using "1.prems"(2) unfolding helperVisits_unfold by simp
    with "1.prems"(1) show ?thesis by (rule descendantsVisits_at)
  next
    case False
    let ?k = "hd (opPath operation)"
    let ?sc = "adoptServerCache env serverCache syncPoint"
    from "1.prems"(2) False have
      "pe \<in> set (ownVisit env here operation syncPoint ?sc writesCache)
       \<or> (\<exists>childTree childOp. map_of cs ?k = Some childTree
            \<and> operationForChild env operation ?k = Some childOp
            \<and> pe \<in> set (helperVisits env (here @ [?k]) childOp childTree
                  (childServerCacheOf env ?sc ?k) (refChild writesCache ?k)))"
      unfolding helperVisits_unfold
      by (cases "map_of cs ?k"; cases "operationForChild env operation ?k") auto
    then show ?thesis
    proof
      assume own: "pe \<in> set (ownVisit env here operation syncPoint ?sc writesCache)"
      then have "fst pe = here @ []" using ownVisit_path by fastforce
      moreover have "tget [] (Tree syncPoint cs) \<noteq> None" using own ownVisit_at by fastforce
      ultimately show ?thesis by blast
    next
      assume "\<exists>childTree childOp. map_of cs ?k = Some childTree
            \<and> operationForChild env operation ?k = Some childOp
            \<and> pe \<in> set (helperVisits env (here @ [?k]) childOp childTree
                  (childServerCacheOf env ?sc ?k) (refChild writesCache ?k))"
      then obtain childTree childOp where ct: "map_of cs ?k = Some childTree"
        and cop: "operationForChild env operation ?k = Some childOp"
        and pe: "pe \<in> set (helperVisits env (here @ [?k]) childOp childTree
                  (childServerCacheOf env ?sc ?k) (refChild writesCache ?k))" by blast
      have "(?k, childTree) \<in> set cs" using ct by (rule map_of_SomeD)
      then have dk: "distinctKeys childTree"
        using "1.prems"(1) distinctKeys_child by fastforce
      obtain r where r: "fst pe = (here @ [?k]) @ r" "tget r childTree \<noteq> None"
        using "1.IH" [OF False refl refl refl ct cop refl refl dk pe] by auto
      have "tget (?k # r) (Tree syncPoint cs) \<noteq> None" using r(2) ct by simp
      moreover have "fst pe = here @ (?k # r)" using r(1) by simp
      ultimately show ?thesis by blast
    qed
  qed
qed

lemma stateNested_visits:
  "helperVisits unitEnv [] (Overwrite Server [] 7) (syncPointTree stateNested) None
     (childWrites [] (pendingWriteTree stateNested))
   = [([''a''], [''default'']), ([], [''{l:5}''])]"
  by (simp add: stateNested_def helperVisits_unfold descendantsVisits_unfold childVisits_def
      ownVisit_def unitEnv_def spApplyOperation_def Let_def)

text \<open>
  C2: for every operation dispatched through \<^verbatim>\<open>applyOperationToSyncPoints_\<close> (which
  is what \<^verbatim>\<open>applyUserOverwrite\<close>, \<^verbatim>\<open>applyUserMerge\<close>, \<^verbatim>\<open>ackUserWrite\<close>,
  \<^verbatim>\<open>applyServerOverwrite\<close>, \<^verbatim>\<open>applyServerMerge\<close> and \<^verbatim>\<open>applyListenComplete\<close> do),
  on a tree whose child maps hold each key once (as the tree of every state a Sync Tree
  reaches does, \<^verbatim>\<open>reachable_distinctKeys\<close> below): the returned events are the events of
  the visited Sync Points in the order of the visits, every visit is of a Sync Point of
  the tree, and no visit of a Sync Point at a path is followed by a visit of a Sync Point
  at a strict descendant of that path.
\<close>

theorem dispatch_events_deepest_first:
  assumes "distinctKeys (syncPointTree s)"
  shows "fst (applyOperationToSyncPoints env operation s)
           = concat (map snd (helperVisits env [] operation (syncPointTree s) None
                                (childWrites [] (pendingWriteTree s))))
       \<and> deepestFirst (map fst (helperVisits env [] operation (syncPointTree s) None
                                (childWrites [] (pendingWriteTree s))))
       \<and> list_all (\<lambda>pe. tget (fst pe) (syncPointTree s) \<noteq> None)
           (helperVisits env [] operation (syncPointTree s) None
              (childWrites [] (pendingWriteTree s)))"
proof (intro conjI)
  show "fst (applyOperationToSyncPoints env operation s)
           = concat (map snd (helperVisits env [] operation (syncPointTree s) None
                                (childWrites [] (pendingWriteTree s))))"
    by (simp add: applyOperationToSyncPoints_def Let_def helper_events_are_visits [of _ _ _ _ _ "[]"])
  show "deepestFirst (map fst (helperVisits env [] operation (syncPointTree s) None
                                (childWrites [] (pendingWriteTree s))))"
    using assms by (rule helperVisits_deepestFirst)
  show "list_all (\<lambda>pe. tget (fst pe) (syncPointTree s) \<noteq> None)
           (helperVisits env [] operation (syncPointTree s) None
              (childWrites [] (pendingWriteTree s)))"
    unfolding list_all_iff
  proof
    fix pe
    assume "pe \<in> set (helperVisits env [] operation (syncPointTree s) None
              (childWrites [] (pendingWriteTree s)))"
    with assms obtain r where "fst pe = [] @ r" "tget r (syncPointTree s) \<noteq> None"
      using helperVisits_at by blast
    then show "tget (fst pe) (syncPointTree s) \<noteq> None" by simp
  qed
qed

theorem dispatch_events_deepest_first_witness:
  "distinctKeys (syncPointTree stateNested)
   \<and> fst (applyOperationToSyncPoints unitEnv (Overwrite Server [] 7) stateNested)
       = [''default'', ''{l:5}'']
   \<and> deepestFirst [[''a''], []]
   \<and> list_all (\<lambda>pe. tget (fst pe) (syncPointTree stateNested) \<noteq> None)
        [([''a''], [''default'']), ([], [''{l:5}''])]"
proof -
  have d: "distinctKeys (syncPointTree stateNested)" by (simp add: stateNested_def)
  show ?thesis
    using dispatch_events_deepest_first [OF d, of unitEnv "Overwrite Server [] 7"] d
    unfolding stateNested_visits by simp
qed

section \<open>The tag registry: results\<close>

subsection \<open>Views of a Sync Point under registration\<close>

lemma viewEntries_alt:
  "viewEntries t = {(p, queryId, q). \<exists>sp. tget p t = Some sp \<and> (queryId, q) \<in> spEntries sp}"
  by (auto simp: viewEntries_def spEntries_def) force

lemma viewEntries_tset:
  "viewEntries (tset p sp t)
   = {e \<in> viewEntries t. fst e \<noteq> p} \<union> {(p, queryId, q) | queryId q. (queryId, q) \<in> spEntries sp}"
  by (auto simp: viewEntries_alt tget_tset split: if_splits)

lemma viewEntries_tremove:
  "viewEntries (tremove p t) = {e \<in> viewEntries t. fst e \<noteq> p}"
  by (auto simp: viewEntries_alt tget_tremove split: if_splits)

lemma set_update_distinct:
  "distinct (map fst al) \<Longrightarrow>
   set (AList.update k v al) = {(k, v)} \<union> {x \<in> set al. fst x \<noteq> k}"
  by (induction al) (auto simp: rev_image_eqI)

lemma spAdd_views:
  "snd (spAddEventRegistration env sp q registration w c b)
   = AList.update (queryIdentifier q)
       ((case map_of sp (queryIdentifier q) of
           None \<Rightarrow> \<lparr>getQuery = q, eventRegistrations = [], viewCache = newViewCache env q w c b\<rparr>
         | Some v \<Rightarrow> v)
        \<lparr>eventRegistrations :=
           eventRegistrations (case map_of sp (queryIdentifier q) of
              None \<Rightarrow> \<lparr>getQuery = q, eventRegistrations = [], viewCache = newViewCache env q w c b\<rparr>
            | Some v \<Rightarrow> v) @ [registration]\<rparr>) sp"
  by (simp add: spAddEventRegistration_def Let_def)

lemma spAdd_distinct:
  "distinct (map fst sp) \<Longrightarrow>
   distinct (map fst (snd (spAddEventRegistration env sp q registration w c b)))"
  unfolding spAdd_views by (rule distinct_update)

lemma spAdd_not_empty: "snd (spAddEventRegistration env sp q registration w c b) \<noteq> []"
  unfolding spAdd_views by (cases sp) auto

lemma spAdd_entries:
  assumes "distinct (map fst sp)"
  shows "spEntries (snd (spAddEventRegistration env sp q registration w c b))
         = spEntries sp \<union> (if map_of sp (queryIdentifier q) = None then {(queryIdentifier q, q)} else {})"
proof (cases "map_of sp (queryIdentifier q)")
  case None
  then have "queryIdentifier q \<notin> fst ` set sp" by (simp add: map_of_eq_None_iff)
  then have "{x \<in> set sp. fst x \<noteq> queryIdentifier q} = set sp" by force
  then show ?thesis
    unfolding spAdd_views spEntries_def set_update_distinct [OF assms]
    using None by simp
next
  case (Some v)
  then have mem: "(queryIdentifier q, v) \<in> set sp" by (rule map_of_SomeD)
  have "set sp = {(queryIdentifier q, v)} \<union> {x \<in> set sp. fst x \<noteq> queryIdentifier q}"
    using mem assms by (auto simp: eq_key_imp_eq_value)
  then have "spEntries sp = {(queryIdentifier q, getQuery v)}
      \<union> (\<lambda>kv. (fst kv, getQuery (snd kv))) ` {x \<in> set sp. fst x \<noteq> queryIdentifier q}"
    unfolding spEntries_def by (metis (no_types, lifting) fst_conv image_Un image_empty image_insert snd_conv)
  then show ?thesis
    unfolding spAdd_views spEntries_def set_update_distinct [OF assms]
    using Some by simp
qed

lemma spAdd_registrations:
  assumes "\<forall>kv \<in> set sp. eventRegistrations (snd kv) \<noteq> []" and "distinct (map fst sp)"
  shows "\<forall>kv \<in> set (snd (spAddEventRegistration env sp q registration w c b)).
           eventRegistrations (snd kv) \<noteq> []"
  unfolding spAdd_views set_update_distinct [OF assms(2)] using assms(1) by auto

lemma removeFromView_key:
  "fst (fst (snd (removeFromView env q registration cancelError kv))) = fst kv"
  by (simp add: removeFromView_def Let_def)

lemma removeFromView_query:
  "getQuery (snd (fst (snd (removeFromView env q registration cancelError kv)))) = getQuery (snd kv)"
  by (simp add: removeFromView_def viewRemoveEventRegistration_def Let_def)

lemma removeFromView_registrations:
  "\<not> viewDeleted env q registration cancelError kv \<Longrightarrow> eventRegistrations (snd kv) \<noteq> []
   \<Longrightarrow> eventRegistrations (snd (fst (snd (removeFromView env q registration cancelError kv)))) \<noteq> []"
  by (auto simp: viewDeleted_def removeFromView_def Let_def split: if_splits)

lemma spRemove_views:
  "snd (snd (spRemoveEventRegistration env sp q registration cancelError))
   = map (\<lambda>kv. fst (snd (removeFromView env q registration cancelError kv)))
       (filter (\<lambda>kv. \<not> viewDeleted env q registration cancelError kv) sp)"
  by (simp add: spRemoveEventRegistration_def Let_def filter_map comp_def viewDeleted_def)

lemma spRemove_keys:
  "map fst (snd (snd (spRemoveEventRegistration env sp q registration cancelError)))
   = map fst (filter (\<lambda>kv. \<not> viewDeleted env q registration cancelError kv) sp)"
  unfolding spRemove_views by (simp add: comp_def removeFromView_key)

lemma spRemove_distinct:
  "distinct (map fst sp) \<Longrightarrow>
   distinct (map fst (snd (snd (spRemoveEventRegistration env sp q registration cancelError))))"
  unfolding spRemove_keys by (rule distinct_map_filter)

lemma spRemove_entries:
  "spEntries (snd (snd (spRemoveEventRegistration env sp q registration cancelError)))
   = (\<lambda>kv. (fst kv, getQuery (snd kv)))
       ` {kv \<in> set sp. \<not> viewDeleted env q registration cancelError kv}"
  unfolding spRemove_views spEntries_def
  by (auto simp: removeFromView_key removeFromView_query image_iff)

lemma spRemove_registrations:
  "\<forall>kv \<in> set sp. eventRegistrations (snd kv) \<noteq> [] \<Longrightarrow>
   \<forall>kv \<in> set (snd (snd (spRemoveEventRegistration env sp q registration cancelError))).
      eventRegistrations (snd kv) \<noteq> []"
  unfolding spRemove_views by (auto simp: removeFromView_registrations)

lemma spRemove_removed_list:
  "\<exists>extra. fst (spRemoveEventRegistration env sp q registration cancelError)
     = map (\<lambda>kv. getQuery (snd kv))
         (filter (\<lambda>kv. viewDeleted env q registration cancelError kv
                       \<and> \<not> loadsAllData (getQuery (snd kv))) sp)
       @ extra \<and> set extra \<subseteq> {getRef q}"
  by (simp add: spRemoveEventRegistration_def Let_def filter_map comp_def removeFromView_query
      viewDeleted_def)

lemma spRemove_removed:
  "{rq \<in> set (fst (spRemoveEventRegistration env sp q registration cancelError)). \<not> loadsAllData rq}
   = (\<lambda>kv. getQuery (snd kv))
       ` {kv \<in> set sp. viewDeleted env q registration cancelError kv \<and> \<not> loadsAllData (getQuery (snd kv))}"
proof -
  obtain extra where e: "fst (spRemoveEventRegistration env sp q registration cancelError)
     = map (\<lambda>kv. getQuery (snd kv))
         (filter (\<lambda>kv. viewDeleted env q registration cancelError kv
                       \<and> \<not> loadsAllData (getQuery (snd kv))) sp)
       @ extra" and x: "set extra \<subseteq> {getRef q}"
    using spRemove_removed_list by blast
  have "\<not> (\<exists>rq \<in> set extra. \<not> loadsAllData rq)" using x by (auto simp: getRef_def)
  then show ?thesis unfolding e by auto
qed

subsection \<open>Removing tags\<close>

lemma removeTags_Nil: "removeTags [] s = s"
  by (simp add: removeTags_def)

lemma removeTags_Cons: "removeTags (q # qs) s = removeTags qs (removeTag s q)"
  by (simp add: removeTags_def removeTag_def)

lemma removeTag_frame:
  "syncPointTree (removeTag s q) = syncPointTree s
   \<and> pendingWriteTree (removeTag s q) = pendingWriteTree s
   \<and> nextQueryTag (removeTag s q) = nextQueryTag s
   \<and> listenProvider (removeTag s q) = listenProvider s"
  by (simp add: removeTag_def Let_def)

lemma removeTag_queryToTag:
  "queryToTagMap (removeTag s q)
   = (\<lambda>k. if \<not> loadsAllData q \<and> k = makeQueryKey q then None else queryToTagMap s k)"
  by (auto simp: removeTag_def Let_def fun_eq_iff)

lemma removeTag_inverse:
  assumes "tagsInverse s"
  shows "tagsInverse (removeTag s q)"
proof (cases "loadsAllData q")
  case True
  then show ?thesis using assms by (simp add: removeTag_def)
next
  case False
  show ?thesis
  proof (cases "queryToTagMap s (makeQueryKey q)")
    case None
    then show ?thesis
      using assms False
      by (auto simp: tagsInverse_def removeTag_def Let_def)
  next
    case (Some t)
    have inv: "\<And>t k. (tagToQueryMap s t = Some k) = (queryToTagMap s k = Some t)"
      using assms by (simp add: tagsInverse_def)
    show ?thesis
      unfolding tagsInverse_def
    proof (intro allI)
      fix t' k'
      show "(tagToQueryMap (removeTag s q) t' = Some k') = (queryToTagMap (removeTag s q) k' = Some t')"
        using False Some inv [of t' k'] inv [of t "makeQueryKey q"] inv [of t k'] inv [of t' "makeQueryKey q"]
        by (auto simp: removeTag_def Let_def)
    qed
  qed
qed

lemma removeTags_effect:
  "tagsInverse s \<Longrightarrow>
   tagsInverse (removeTags qs s)
   \<and> queryToTagMap (removeTags qs s)
       = (\<lambda>k. if k \<in> removedKeys qs then None else queryToTagMap s k)
   \<and> syncPointTree (removeTags qs s) = syncPointTree s
   \<and> pendingWriteTree (removeTags qs s) = pendingWriteTree s
   \<and> nextQueryTag (removeTags qs s) = nextQueryTag s
   \<and> listenProvider (removeTags qs s) = listenProvider s"
proof (induction qs arbitrary: s)
  case Nil
  then show ?case by (simp add: removeTags_Nil removedKeys_def)
next
  case (Cons q qs)
  have inv: "tagsInverse (removeTag s q)" using Cons.prems by (rule removeTag_inverse)
  have keys: "removedKeys (q # qs)
      = (if loadsAllData q then {} else {makeQueryKey q}) \<union> removedKeys qs"
    by (auto simp: removedKeys_def)
  show ?case
    using Cons.IH [OF inv] removeTag_frame [of s q]
    by (auto simp: removeTags_Cons removeTag_queryToTag keys fun_eq_iff)
qed

lemma setupListener_frame:
  "setupListener env q v s = Inr (events, s') \<Longrightarrow>
   syncPointTree s' = syncPointTree s \<and> pendingWriteTree s' = pendingWriteTree s
   \<and> tagToQueryMap s' = tagToQueryMap s \<and> queryToTagMap s' = queryToTagMap s
   \<and> nextQueryTag s' = nextQueryTag s"
  by (auto simp: setupListener_def Let_def split: if_splits option.splits)

subsection \<open>What registering and unregistering change\<close>

lemma addEventRegistration_effect:
  assumes "addEventRegistration env q registration s = Inr (events, s')"
  shows "\<exists>w c b.
     (\<forall>p'. tget p' (syncPointTree s')
          = (if p' = qpath q
             then Some (snd (spAddEventRegistration env
                    (case tget (qpath q) (syncPointTree s) of None \<Rightarrow> [] | Some sp \<Rightarrow> sp)
                    q registration w c b))
             else tget p' (syncPointTree s)))
     \<and> pendingWriteTree s' = pendingWriteTree s
     \<and> (if \<not> viewExistsForQuery (case tget (qpath q) (syncPointTree s) of None \<Rightarrow> [] | Some sp \<Rightarrow> sp) q
            \<and> \<not> loadsAllData q
         then queryToTagMap s (makeQueryKey q) = None
            \<and> queryToTagMap s' = (queryToTagMap s)(makeQueryKey q \<mapsto> nextQueryTag s)
            \<and> tagToQueryMap s' = (tagToQueryMap s)(nextQueryTag s \<mapsto> makeQueryKey q)
            \<and> nextQueryTag s' = Suc (nextQueryTag s)
         else queryToTagMap s' = queryToTagMap s \<and> tagToQueryMap s' = tagToQueryMap s
            \<and> nextQueryTag s' = nextQueryTag s)"
proof -
  let ?p = "qpath q"
  let ?existing = "tget ?p (syncPointTree s)"
  let ?sp0 = "case ?existing of None \<Rightarrow> [] | Some sp \<Rightarrow> sp"
  let ?tree1 = "case ?existing of None \<Rightarrow> tset ?p [] (syncPointTree s)
                | Some sp \<Rightarrow> syncPointTree s"
  let ?needsTag = "\<not> viewExistsForQuery ?sp0 q \<and> \<not> loadsAllData q"
  obtain c0 f0 where walk:
    "ancestorWalk env ?p (foreachOnPath ?p (syncPointTree s)) (None, False) = Inr (c0, f0)"
    using ancestorWalk_foreachOnPath by blast
  define found where "found = (case ?existing of None \<Rightarrow> f0 | Some sp \<Rightarrow> f0 \<or> hasCompleteView sp)"
  define sc1 where "sc1 = (case ?existing of
                       None \<Rightarrow> c0
                     | Some sp \<Rightarrow>
                         (case c0 of Some c \<Rightarrow> Some c
                          | None \<Rightarrow> getCompleteServerCache env sp []))"
  define C where "C = (case sc1 of Some c \<Rightarrow> c | None \<Rightarrow> assembledServerCache env (subtree ?p ?tree1))"
  define s1 where "s1 = (if ?needsTag
       then s\<lparr>syncPointTree := ?tree1,
              queryToTagMap := (queryToTagMap s)(makeQueryKey q \<mapsto> nextQueryTag s),
              tagToQueryMap := (tagToQueryMap s)(nextQueryTag s \<mapsto> makeQueryKey q),
              nextQueryTag := nextQueryTag s + 1\<rparr>
       else s\<lparr>syncPointTree := ?tree1\<rparr>)"
  define r where "r = spAddEventRegistration env ?sp0 q registration
                        (childWrites ?p (pendingWriteTree s1)) C (sc1 \<noteq> None)"
  define s2 where "s2 = s1\<lparr>syncPointTree := tset ?p (snd r) ?tree1\<rparr>"
  have unfolded: "addEventRegistration env q registration s =
     (if ?needsTag \<and> queryToTagMap s (makeQueryKey q) \<noteq> None
      then Inl ViewDoesNotExistButWeHaveATag
      else if \<not> viewExistsForQuery ?sp0 q \<and> \<not> found
           then (case viewForQuery (snd r) q of
                   None \<Rightarrow> Inl NullDereference
                 | Some v \<Rightarrow>
                     (case setupListener env q v s2 of
                        Inl e \<Rightarrow> Inl e
                      | Inr (listenEvents, s3) \<Rightarrow> Inr (fst r @ listenEvents, s3)))
           else Inr (fst r, s2))"
    unfolding addEventRegistration_def Let_def walk found_def sc1_def C_def s1_def r_def s2_def
    by simp
  have noAssert: "\<not> (?needsTag \<and> queryToTagMap s (makeQueryKey q) \<noteq> None)"
    using assms unfolding unfolded by (auto split: if_splits)
  have frame: "syncPointTree s' = syncPointTree s2 \<and> pendingWriteTree s' = pendingWriteTree s2
      \<and> tagToQueryMap s' = tagToQueryMap s2 \<and> queryToTagMap s' = queryToTagMap s2
      \<and> nextQueryTag s' = nextQueryTag s2"
  proof (cases "\<not> viewExistsForQuery ?sp0 q \<and> \<not> found")
    case False
    then have "s' = s2" using assms noAssert unfolding unfolded by (auto split: if_splits)
    then show ?thesis by simp
  next
    case True
    then obtain v listenEvents where "setupListener env q v s2 = Inr (listenEvents, s')"
      using assms noAssert unfolding unfolded
      by (auto split: if_splits option.splits sum.splits)
    then show ?thesis by (rule setupListener_frame)
  qed
  have tree: "\<forall>p'. tget p' (syncPointTree s')
          = (if p' = ?p then Some (snd r) else tget p' (syncPointTree s))"
    using frame unfolding s2_def by (auto simp: tget_tset split: option.splits)
  have fields: "pendingWriteTree s' = pendingWriteTree s1 \<and> tagToQueryMap s' = tagToQueryMap s1
      \<and> queryToTagMap s' = queryToTagMap s1 \<and> nextQueryTag s' = nextQueryTag s1"
    using frame unfolding s2_def by simp
  show ?thesis
    apply (rule exI [of _ "childWrites ?p (pendingWriteTree s1)"])
    apply (rule exI [of _ C])
    apply (rule exI [of _ "sc1 \<noteq> None"])
    using tree fields noAssert unfolding s1_def r_def
    apply (auto split: if_splits)
    done
qed

lemma removeEventRegistration_effect:
  assumes "removeEventRegistration env q registration cancelError s = (events, s')"
    and "tagsInverse s"
  shows "(s' = s
          \<or> (\<exists>sp. tget (qpath q) (syncPointTree s) = Some sp
               \<and> syncPointTree s'
                   = (if snd (snd (spRemoveEventRegistration env sp q registration cancelError)) = []
                      then tremove (qpath q) (syncPointTree s)
                      else tset (qpath q)
                             (snd (snd (spRemoveEventRegistration env sp q registration cancelError)))
                             (syncPointTree s))
               \<and> queryToTagMap s'
                   = (\<lambda>k. if k \<in> removedKeys (fst (spRemoveEventRegistration env sp q registration cancelError))
                          then None else queryToTagMap s k)))
         \<and> tagsInverse s' \<and> pendingWriteTree s' = pendingWriteTree s
         \<and> nextQueryTag s' = nextQueryTag s"
proof (cases "tget (qpath q) (syncPointTree s)")
  case None
  then have "s' = s" using assms(1) by (simp add: removeEventRegistration_def)
  then show ?thesis using assms(2) by simp
next
  case (Some sp)
  show ?thesis
  proof (cases "queryIdentifier q = ''default'' \<or> viewExistsForQuery sp q")
    case False
    then have "s' = s" using assms(1) Some by (simp add: removeEventRegistration_def)
    then show ?thesis using assms(2) by simp
  next
    case True
    let ?r = "spRemoveEventRegistration env sp q registration cancelError"
    let ?tree1 = "if snd (snd ?r) = [] then tremove (qpath q) (syncPointTree s)
                  else tset (qpath q) (snd (snd ?r)) (syncPointTree s)"
    define s1 where "s1 = s\<lparr>syncPointTree := ?tree1\<rparr>"
    define covered where "covered =
        (findOnPath (qpath q) (\<lambda>relativePath parentSyncPoint.
                                 if hasCompleteView parentSyncPoint then Some True else None)
           ?tree1 \<noteq> None)"
    define s2 where "s2 = (if list_ex loadsAllData (fst ?r) \<and> \<not> covered
                               \<and> \<not> isEmpty (subtree (qpath q) ?tree1)
                          then s1\<lparr>listenProvider := listenProvider s1 @
                                 map (\<lambda>v. StartListening (queryForListening (getQuery v))
                                             (tagForQuery s1 (getQuery v)))
                                   (collectDistinctViewsForSubTree (subtree (qpath q) ?tree1))\<rparr>
                          else s1)"
    define s3 where "s3 = (if \<not> covered \<and> fst ?r \<noteq> [] \<and> cancelError = None
                          then (if list_ex loadsAllData (fst ?r)
                                then s2\<lparr>listenProvider := listenProvider s2 @
                                       [StopListening (queryForListening q) None]\<rparr>
                                else s2\<lparr>listenProvider := listenProvider s2 @
                                       map (\<lambda>queryToRemove.
                                              StopListening (queryForListening queryToRemove)
                                                (queryToTagMap s2 (makeQueryKey queryToRemove)))
                                         (fst ?r)\<rparr>)
                          else s2)"
    have "removeEventRegistration env q registration cancelError s
          = (fst (snd ?r), removeTags (fst ?r) s3)"
      using Some True
      unfolding removeEventRegistration_def Let_def s3_def s2_def s1_def covered_def spIsEmpty_def
      by simp
    then have s': "s' = removeTags (fst ?r) s3" using assms(1) by simp
    have s3: "syncPointTree s3 = ?tree1 \<and> pendingWriteTree s3 = pendingWriteTree s
        \<and> nextQueryTag s3 = nextQueryTag s \<and> queryToTagMap s3 = queryToTagMap s
        \<and> tagToQueryMap s3 = tagToQueryMap s"
      by (simp add: s3_def s2_def s1_def)
    have inv3: "tagsInverse s3" using assms(2) s3 by (simp add: tagsInverse_def)
    show ?thesis
      using removeTags_effect [OF inv3, of "fst ?r"] s3 Some unfolding s' by auto
  qed
qed

subsection \<open>Registering keeps the registry\<close>

lemma viewEntries_step:
  assumes "\<forall>p'. tget p' t' = (if p' = p then new else tget p' t)"
  shows "((p', i, qr) \<in> viewEntries t')
       = (if p' = p then (\<exists>sp. new = Some sp \<and> (i, qr) \<in> spEntries sp)
          else (p', i, qr) \<in> viewEntries t)"
  using assms by (simp add: viewEntries_alt)

lemma viewEntries_here:
  "tget p t = Some sp \<Longrightarrow> ((p, i, qr) \<in> viewEntries t) = ((i, qr) \<in> spEntries sp)"
  by (simp add: viewEntries_alt)

lemma viewEntries_none:
  "tget p t = None \<Longrightarrow> (p, i, qr) \<notin> viewEntries t"
  by (simp add: viewEntries_alt)

lemma registryInvariant_new: "registryInvariant newSyncTree"
  by (simp add: registryInvariant_def tagsInverse_def tagsFresh_def treeShape_def viewsTagged_def
      tagsViewed_def keysUnique_def newSyncTree_def viewEntries_alt tget_Empty)

lemma add_entries:
  assumes "addEventRegistration env q registration s = Inr (events, s')" and "treeShape s"
  shows "((p', i, qr) \<in> viewEntries (syncPointTree s'))
       = ((p', i, qr) \<in> viewEntries (syncPointTree s)
          \<or> (map_of (case tget (qpath q) (syncPointTree s) of None \<Rightarrow> [] | Some sp \<Rightarrow> sp)
                (queryIdentifier q) = None
             \<and> (p', i, qr) = (qpath q, queryIdentifier q, q)))"
proof -
  let ?sp0 = "case tget (qpath q) (syncPointTree s) of None \<Rightarrow> [] | Some sp \<Rightarrow> sp"
  obtain w c b where tree: "\<forall>p'. tget p' (syncPointTree s')
          = (if p' = qpath q
             then Some (snd (spAddEventRegistration env ?sp0 q registration w c b))
             else tget p' (syncPointTree s))"
    using addEventRegistration_effect [OF assms(1)] by blast
  have d: "distinct (map fst ?sp0)"
    using assms(2) by (cases "tget (qpath q) (syncPointTree s)") (auto simp: treeShape_def)
  have here: "((qpath q, i, qr) \<in> viewEntries (syncPointTree s)) = ((i, qr) \<in> spEntries ?sp0)"
    by (cases "tget (qpath q) (syncPointTree s)")
      (simp_all add: viewEntries_here viewEntries_none spEntries_def)
  show ?thesis
    using here by (auto simp: viewEntries_step [OF tree] spAdd_entries [OF d])
qed

lemma add_needsTag:
  "\<not> loadsAllData q \<Longrightarrow> viewExistsForQuery sp q = (map_of sp (queryIdentifier q) \<noteq> None)"
  by (simp add: viewExistsForQuery_def viewForQuery_def)

lemma add_preserves:
  assumes step: "addEventRegistration env q registration s = Inr (events, s')"
    and inv: "registryInvariant s"
  shows "registryInvariant s'"
proof -
  let ?sp0 = "case tget (qpath q) (syncPointTree s) of None \<Rightarrow> [] | Some sp \<Rightarrow> sp"
  let ?k = "makeQueryKey q"
  let ?n = "nextQueryTag s"
  let ?needsTag = "\<not> viewExistsForQuery ?sp0 q \<and> \<not> loadsAllData q"
  from inv have tinv: "tagsInverse s" and fresh: "tagsFresh s" and shape: "treeShape s"
    and tagged: "viewsTagged s" and viewed: "tagsViewed s" and unique: "keysUnique s"
    by (simp_all add: registryInvariant_def)
  obtain w c b where tree: "\<forall>p'. tget p' (syncPointTree s')
          = (if p' = qpath q
             then Some (snd (spAddEventRegistration env ?sp0 q registration w c b))
             else tget p' (syncPointTree s))"
    and tags: "if ?needsTag
         then queryToTagMap s ?k = None
            \<and> queryToTagMap s' = (queryToTagMap s)(?k \<mapsto> ?n)
            \<and> tagToQueryMap s' = (tagToQueryMap s)(?n \<mapsto> ?k)
            \<and> nextQueryTag s' = Suc ?n
         else queryToTagMap s' = queryToTagMap s \<and> tagToQueryMap s' = tagToQueryMap s
            \<and> nextQueryTag s' = nextQueryTag s"
    using addEventRegistration_effect [OF step] by blast
  note entries = add_entries [OF step shape]
  have d0: "distinct (map fst ?sp0)"
    using shape by (cases "tget (qpath q) (syncPointTree s)") (auto simp: treeShape_def)
  have r0: "\<forall>kv \<in> set ?sp0. eventRegistrations (snd kv) \<noteq> []"
    using shape by (cases "tget (qpath q) (syncPointTree s)") (auto simp: treeShape_def)
  have dom: "queryToTagMap s k \<noteq> None \<Longrightarrow> queryToTagMap s' k \<noteq> None" for k
    using tags by (auto split: if_splits)
  have 1: "tagsInverse s'"
  proof (cases ?needsTag)
    case False
    then show ?thesis using tags tinv by (simp add: tagsInverse_def)
  next
    case True
    have nofresh: "tagToQueryMap s ?n = None"
    proof (cases "tagToQueryMap s ?n")
      case None then show ?thesis .
    next
      case (Some k')
      then have "queryToTagMap s k' = Some ?n" using tinv by (simp add: tagsInverse_def)
      then show ?thesis using fresh by (auto simp: tagsFresh_def)
    qed
    have nokey: "queryToTagMap s ?k = None" using tags True by simp
    have inv: "\<And>t k. (tagToQueryMap s t = Some k) = (queryToTagMap s k = Some t)"
      using tinv by (simp add: tagsInverse_def)
    show ?thesis
      unfolding tagsInverse_def
    proof (intro allI)
      fix t k
      show "(tagToQueryMap s' t = Some k) = (queryToTagMap s' k = Some t)"
        using tags True nofresh nokey inv [of t k] inv [of ?n k] inv [of t ?k]
        by (auto split: if_splits)
    qed
  qed
  have 2: "tagsFresh s'"
    unfolding tagsFresh_def
  proof (intro allI impI)
    fix k t
    assume kt: "queryToTagMap s' k = Some t"
    show "t < nextQueryTag s'"
    proof (cases "queryToTagMap s k = Some t")
      case True
      then have "t < ?n" using fresh by (simp add: tagsFresh_def)
      moreover have "?n \<le> nextQueryTag s'" using tags by (simp split: if_splits)
      ultimately show ?thesis by simp
    next
      case False
      then have "?needsTag \<and> t = ?n" using tags kt by (auto split: if_splits)
      then show ?thesis using tags by simp
    qed
  qed
  have 3: "treeShape s'"
    unfolding treeShape_def
  proof (intro allI impI)
    fix p sp
    assume "tget p (syncPointTree s') = Some sp"
    then consider (here) "sp = snd (spAddEventRegistration env ?sp0 q registration w c b)"
      | (other) "tget p (syncPointTree s) = Some sp"
      using tree by (cases "p = qpath q") auto
    then show "distinct (map fst sp) \<and> sp \<noteq> [] \<and> (\<forall>kv\<in>set sp. eventRegistrations (snd kv) \<noteq> [])"
    proof cases
      case here
      show ?thesis
        unfolding here
        using spAdd_distinct [OF d0, of env q registration w c b]
          spAdd_not_empty [of env ?sp0 q registration w c b]
          spAdd_registrations [OF r0 d0, of env q registration w c b]
        by blast
    next
      case other
      then show ?thesis using shape by (simp add: treeShape_def)
    qed
  qed
  have 4: "viewsTagged s'"
    unfolding viewsTagged_def
  proof (intro allI impI)
    fix p i qr
    assume e: "(p, i, qr) \<in> viewEntries (syncPointTree s')" and f: "\<not> loadsAllData qr"
    from e consider (old) "(p, i, qr) \<in> viewEntries (syncPointTree s)"
      | (new) "map_of ?sp0 (queryIdentifier q) = None" "qr = q"
      unfolding entries by auto
    then show "queryToTagMap s' (makeQueryKey qr) \<noteq> None"
    proof cases
      case old
      then show ?thesis using tagged f dom by (auto simp: viewsTagged_def)
    next
      case new
      then have ?needsTag using f add_needsTag [of q ?sp0] by simp
      then show ?thesis using tags new by simp
    qed
  qed
  have 5: "tagsViewed s'"
    unfolding tagsViewed_def
  proof (intro allI impI)
    fix k t
    assume kt: "queryToTagMap s' k = Some t"
    show "\<exists>p i qr. (p, i, qr) \<in> viewEntries (syncPointTree s') \<and> makeQueryKey qr = k
           \<and> \<not> loadsAllData qr"
    proof (cases "queryToTagMap s k")
      case (Some t')
      then show ?thesis using viewed unfolding tagsViewed_def entries by blast
    next
      case None
      then have nt: ?needsTag and k: "k = ?k" using tags kt by (auto split: if_splits)
      then have "map_of ?sp0 (queryIdentifier q) = None"
        using add_needsTag [of q ?sp0] by simp
      then have "(qpath q, queryIdentifier q, q) \<in> viewEntries (syncPointTree s')"
        unfolding entries by simp
      then show ?thesis using nt k by blast
    qed
  qed
  have 6: "keysUnique s'"
    unfolding keysUnique_def
  proof (intro allI impI)
    fix p i qr p' i' qr'
    assume e: "(p, i, qr) \<in> viewEntries (syncPointTree s')"
      and e': "(p', i', qr') \<in> viewEntries (syncPointTree s')"
      and f: "\<not> loadsAllData qr" and f': "\<not> loadsAllData qr'"
      and k: "makeQueryKey qr = makeQueryKey qr'"
    have clash: False
      if "(a, j, x) \<in> viewEntries (syncPointTree s)" "\<not> loadsAllData x"
        "map_of ?sp0 (queryIdentifier q) = None" "\<not> loadsAllData q"
        "makeQueryKey x = makeQueryKey q" for a j x
    proof -
      have "queryToTagMap s (makeQueryKey x) \<noteq> None"
        using tagged that(1,2) by (auto simp: viewsTagged_def)
      moreover have ?needsTag using that(3,4) add_needsTag [of q ?sp0] by simp
      then have "queryToTagMap s ?k = None" using tags by simp
      ultimately show False using that(5) by simp
    qed
    from e e' show "p = p' \<and> i = i'"
      unfolding entries
      using unique f f' k clash [of p i qr] clash [of p' i' qr']
      by (auto simp: keysUnique_def)
  qed
  show ?thesis using 1 2 3 4 5 6 by (simp add: registryInvariant_def)
qed

subsection \<open>Unregistering keeps the registry\<close>

lemma remove_preserves:
  assumes step: "removeEventRegistration env q registration cancelError s = (events, s')"
    and inv: "registryInvariant s"
  shows "registryInvariant s'"
proof -
  from inv have tinv: "tagsInverse s" and fresh: "tagsFresh s" and shape: "treeShape s"
    and tagged: "viewsTagged s" and viewed: "tagsViewed s" and unique: "keysUnique s"
    by (simp_all add: registryInvariant_def)
  note eff = removeEventRegistration_effect [OF step tinv]
  show ?thesis
  proof (cases "s' = s")
    case True
    then show ?thesis using inv by simp
  next
    case False
    let ?p = "qpath q"
    from eff False obtain sp where sp: "tget ?p (syncPointTree s) = Some sp"
      and tree': "syncPointTree s'
                   = (if snd (snd (spRemoveEventRegistration env sp q registration cancelError)) = []
                      then tremove ?p (syncPointTree s)
                      else tset ?p
                             (snd (snd (spRemoveEventRegistration env sp q registration cancelError)))
                             (syncPointTree s))"
      and tags': "queryToTagMap s'
                   = (\<lambda>k. if k \<in> removedKeys (fst (spRemoveEventRegistration env sp q registration cancelError))
                          then None else queryToTagMap s k)"
      by blast
    let ?r = "spRemoveEventRegistration env sp q registration cancelError"
    let ?sp' = "snd (snd ?r)"
    let ?D = "viewDeleted env q registration cancelError"
    have next': "nextQueryTag s' = nextQueryTag s" using eff by simp
    have d: "distinct (map fst sp)" and regs: "\<forall>kv \<in> set sp. eventRegistrations (snd kv) \<noteq> []"
      using shape sp by (auto simp: treeShape_def)
    have tget': "\<forall>p'. tget p' (syncPointTree s')
         = (if p' = ?p then (if ?sp' = [] then None else Some ?sp') else tget p' (syncPointTree s))"
      unfolding tree' by (simp add: tget_tset tget_tremove)
    have entries: "((p', i, qr) \<in> viewEntries (syncPointTree s'))
         = (if p' = ?p then (\<exists>kv \<in> set sp. \<not> ?D kv \<and> fst kv = i \<and> getQuery (snd kv) = qr)
            else (p', i, qr) \<in> viewEntries (syncPointTree s))" for p' i qr
    proof (cases "?sp' = []")
      case True
      then have "spEntries ?sp' = {}" by (simp add: spEntries_def)
      then have "\<not> (\<exists>kv \<in> set sp. \<not> ?D kv \<and> fst kv = i \<and> getQuery (snd kv) = qr)"
        unfolding spRemove_entries by auto
      then show ?thesis using True by (simp add: viewEntries_step [OF tget'])
    next
      case False
      then show ?thesis
        by (auto simp: viewEntries_step [OF tget'] spRemove_entries)
    qed
    have old: "(p', i, qr) \<in> viewEntries (syncPointTree s)"
      if mem: "(p', i, qr) \<in> viewEntries (syncPointTree s')" for p' i qr
    proof (cases "p' = ?p")
      case True
      then have "\<exists>kv \<in> set sp. fst kv = i \<and> getQuery (snd kv) = qr"
        using mem unfolding entries by auto
      then obtain kv where "kv \<in> set sp" "fst kv = i" "getQuery (snd kv) = qr" by blast
      then have "(i, qr) \<in> spEntries sp" by (auto simp: spEntries_def)
      then show ?thesis using True sp by (simp add: viewEntries_here)
    next
      case False
      then show ?thesis using mem unfolding entries by simp
    qed
    have keys: "(k \<in> removedKeys (fst ?r))
        = (\<exists>kv \<in> set sp. ?D kv \<and> \<not> loadsAllData (getQuery (snd kv))
              \<and> makeQueryKey (getQuery (snd kv)) = k)" for k
    proof -
      have "removedKeys (fst ?r)
          = makeQueryKey ` ((\<lambda>kv. getQuery (snd kv))
              ` {kv \<in> set sp. ?D kv \<and> \<not> loadsAllData (getQuery (snd kv))})"
        unfolding removedKeys_def spRemove_removed ..
      then show ?thesis by auto
    qed
    have 1: "tagsInverse s'" using eff by simp
    have 2: "tagsFresh s'"
      using fresh next' unfolding tagsFresh_def tags' by (auto split: if_splits)
    have 3: "treeShape s'"
      unfolding treeShape_def
    proof (intro allI impI)
      fix p x
      assume g: "tget p (syncPointTree s') = Some x"
      show "distinct (map fst x) \<and> x \<noteq> [] \<and> (\<forall>kv\<in>set x. eventRegistrations (snd kv) \<noteq> [])"
      proof (cases "p = ?p")
        case True
        then have x: "x = ?sp'" and ne: "?sp' \<noteq> []" using g tget' by (auto split: if_splits)
        show ?thesis
          unfolding x
          using ne spRemove_distinct [OF d, of env q registration cancelError]
            spRemove_registrations [OF regs, of env q registration cancelError]
          by blast
      next
        case False
        then have "tget p (syncPointTree s) = Some x" using g tget' by simp
        then show ?thesis using shape by (simp add: treeShape_def)
      qed
    qed
    have gone: False
      if e: "(p', i, qr) \<in> viewEntries (syncPointTree s')" and f: "\<not> loadsAllData qr"
        and k: "makeQueryKey qr \<in> removedKeys (fst ?r)" for p' i qr
    proof -
      from k obtain kv where kv: "kv \<in> set sp" "?D kv" "\<not> loadsAllData (getQuery (snd kv))"
        "makeQueryKey (getQuery (snd kv)) = makeQueryKey qr"
        unfolding keys by blast
      have "(fst kv, getQuery (snd kv)) \<in> spEntries sp" using kv(1) by (auto simp: spEntries_def)
      then have e1: "(?p, fst kv, getQuery (snd kv)) \<in> viewEntries (syncPointTree s)"
        using sp by (simp add: viewEntries_here)
      have e2: "(p', i, qr) \<in> viewEntries (syncPointTree s)" using e by (rule old)
      have "?p = p' \<and> fst kv = i"
        using unique e1 e2 kv(3) f kv(4) unfolding keysUnique_def by blast
      then have "\<exists>kv' \<in> set sp. \<not> ?D kv' \<and> fst kv' = fst kv"
        using e unfolding entries by auto
      then obtain kv' where kv': "kv' \<in> set sp" "\<not> ?D kv'" "fst kv' = fst kv" by blast
      have "kv' = kv"
        using d kv(1) kv'(1,3) by (metis eq_key_imp_eq_value prod.collapse)
      then show False using kv(2) kv'(2) by simp
    qed
    have 4: "viewsTagged s'"
      unfolding viewsTagged_def
    proof (intro allI impI)
      fix p i qr
      assume e: "(p, i, qr) \<in> viewEntries (syncPointTree s')" and f: "\<not> loadsAllData qr"
      have "queryToTagMap s (makeQueryKey qr) \<noteq> None"
        using tagged old [OF e] f by (auto simp: viewsTagged_def)
      moreover have "makeQueryKey qr \<notin> removedKeys (fst ?r)" using gone [OF e f] by blast
      ultimately show "queryToTagMap s' (makeQueryKey qr) \<noteq> None" unfolding tags' by simp
    qed
    have 5: "tagsViewed s'"
      unfolding tagsViewed_def
    proof (intro allI impI)
      fix k t
      assume kt: "queryToTagMap s' k = Some t"
      then have nk: "k \<notin> removedKeys (fst ?r)" and "queryToTagMap s k = Some t"
        unfolding tags' by (auto split: if_splits)
      then obtain p i qr where e: "(p, i, qr) \<in> viewEntries (syncPointTree s)"
        and k: "makeQueryKey qr = k" and f: "\<not> loadsAllData qr"
        using viewed unfolding tagsViewed_def by blast
      have "(p, i, qr) \<in> viewEntries (syncPointTree s')"
      proof (cases "p = ?p")
        case False
        then show ?thesis using e unfolding entries by simp
      next
        case True
        then have "(i, qr) \<in> spEntries sp" using e sp by (simp add: viewEntries_here)
        then obtain kv where kv: "kv \<in> set sp" "fst kv = i" "getQuery (snd kv) = qr"
          by (auto simp: spEntries_def)
        have "\<not> ?D kv" using nk kv f k unfolding keys by blast
        then show ?thesis using True kv unfolding entries by auto
      qed
      then show "\<exists>p i qr. (p, i, qr) \<in> viewEntries (syncPointTree s') \<and> makeQueryKey qr = k
           \<and> \<not> loadsAllData qr"
        using k f by blast
    qed
    have 6: "keysUnique s'"
      using unique old unfolding keysUnique_def by blast
    show ?thesis using 1 2 3 4 5 6 by (simp add: registryInvariant_def)
  qed
qed

subsection \<open>Operations keep the views\<close>

lemma sameViews_refl: "sameViews sp sp"
  by (simp add: sameViews_def)

lemma sameTree_refl: "sameTree t t"
  by (simp add: sameTree_def option.rel_refl sameViews_refl)

lemma spApplyOperation_sameViews:
  "sameViews sp (snd (spApplyOperation env sp operation writesCache optCompleteServerCache))"
  by (simp add: sameViews_def spApplyOperation_def Let_def comp_def viewShape_def)

lemma map_of_map_child:
  "map_of (map (\<lambda>kc. (fst kc, f kc)) cs) k
   = (case map_of cs k of None \<Rightarrow> None | Some c \<Rightarrow> Some (f (k, c)))"
  by (induction cs) auto

lemma applyOperationDescendantsHelper_tree:
  "snd (applyOperationDescendantsHelper env operation (Tree syncPoint cs) serverCache writesCache) =
     Tree (case syncPoint of
             None \<Rightarrow> None
           | Some sp \<Rightarrow> Some (snd (spApplyOperation env sp operation writesCache
                                     (adoptServerCache env serverCache syncPoint))))
       (map (\<lambda>kc. (fst kc,
          case operationForChild env operation (fst kc) of
            None \<Rightarrow> snd kc
          | Some childOperation \<Rightarrow>
              snd (applyOperationDescendantsHelper env childOperation (snd kc)
                     (childServerCacheOf env (adoptServerCache env serverCache syncPoint) (fst kc))
                     (refChild writesCache (fst kc))))) cs)"
  by (cases syncPoint)
    (simp_all add: applyOperationDescendantsHelper.simps Let_def case_prod_unfold comp_def
      option.case_distrib [of snd] option.case_distrib [of "Pair _"]
      cong: option.case_cong)

lemma descendants_sameTree:
  "sameTree t (snd (applyOperationDescendantsHelper env operation t serverCache writesCache))"
proof (induction env operation t serverCache writesCache
    rule: applyOperationDescendantsHelper.induct)
  case (1 env operation syncPoint cs serverCache writesCache)
  let ?sc = "adoptServerCache env serverCache syncPoint"
  let ?f = "\<lambda>kc. case operationForChild env operation (fst kc) of
            None \<Rightarrow> snd kc
          | Some childOperation \<Rightarrow>
              snd (applyOperationDescendantsHelper env childOperation (snd kc)
                     (childServerCacheOf env ?sc (fst kc)) (refChild writesCache (fst kc)))"
  have child: "sameTree (snd kc) (?f kc)" if "kc \<in> set cs" for kc
  proof (cases "operationForChild env operation (fst kc)")
    case None
    then show ?thesis by (simp add: sameTree_refl)
  next
    case (Some childOperation)
    then show ?thesis
      using "1.IH" [OF refl that _ refl refl Some, of "snd kc"] by simp
  qed
  show ?case
    unfolding sameTree_def
  proof
    fix p
    show "rel_option sameViews (tget p (Tree syncPoint cs))
        (tget p (snd (applyOperationDescendantsHelper env operation (Tree syncPoint cs)
                        serverCache writesCache)))"
    proof (cases p)
      case Nil
      then show ?thesis
        unfolding applyOperationDescendantsHelper_tree
        by (cases syncPoint) (simp_all add: spApplyOperation_sameViews)
    next
      case (Cons k ks)
      show ?thesis
      proof (cases "map_of cs k")
        case None
        then show ?thesis
          unfolding applyOperationDescendantsHelper_tree Cons
          by (simp add: map_of_map_child)
      next
        case (Some c)
        then have "(k, c) \<in> set cs" by (rule map_of_SomeD)
        then have "sameTree c (?f (k, c))" using child [of "(k, c)"] by simp
        then show ?thesis
          unfolding applyOperationDescendantsHelper_tree Cons
          using Some by (simp add: map_of_map_child sameTree_def)
      qed
    qed
  qed
qed

lemma applyOperationHelper_tree:
  "snd (applyOperationHelper env operation (Tree syncPoint cs) serverCache writesCache) =
     (if opPath operation = []
      then snd (applyOperationDescendantsHelper env operation (Tree syncPoint cs) serverCache
                  writesCache)
      else
        Tree (case syncPoint of
                None \<Rightarrow> None
              | Some sp \<Rightarrow> Some (snd (spApplyOperation env sp operation writesCache
                                        (adoptServerCache env serverCache syncPoint))))
          (case map_of cs (hd (opPath operation)) of
             None \<Rightarrow> cs
           | Some childTree \<Rightarrow>
               (case operationForChild env operation (hd (opPath operation)) of
                  None \<Rightarrow> cs
                | Some childOp \<Rightarrow>
                    AList.update (hd (opPath operation))
                      (snd (applyOperationHelper env childOp childTree
                         (childServerCacheOf env (adoptServerCache env serverCache syncPoint)
                            (hd (opPath operation)))
                         (refChild writesCache (hd (opPath operation))))) cs)))"
  by (cases syncPoint; cases "map_of cs (hd (opPath operation))";
      cases "operationForChild env operation (hd (opPath operation))")
    (simp_all add: applyOperationHelper.simps Let_def)

lemma helper_sameTree:
  "sameTree t (snd (applyOperationHelper env operation t serverCache writesCache))"
proof (induction env operation t serverCache writesCache rule: applyOperationHelper.induct)
  case (1 env operation syncPoint cs serverCache writesCache)
  let ?sc = "adoptServerCache env serverCache syncPoint"
  let ?k = "hd (opPath operation)"
  show ?case
  proof (cases "opPath operation = []")
    case True
    then show ?thesis
      unfolding applyOperationHelper_tree using descendants_sameTree by simp
  next
    case False
    let ?own = "case syncPoint of
                None \<Rightarrow> None
              | Some sp \<Rightarrow> Some (snd (spApplyOperation env sp operation writesCache ?sc))"
    have own: "rel_option sameViews syncPoint ?own"
      by (cases syncPoint) (simp_all add: spApplyOperation_sameViews)
    show ?thesis
    proof (cases "map_of cs ?k")
      case None
      then have eq: "snd (applyOperationHelper env operation (Tree syncPoint cs) serverCache
          writesCache) = Tree ?own cs"
        unfolding applyOperationHelper_tree using False by simp
      show ?thesis unfolding eq sameTree_def
      proof
        fix p
        show "rel_option sameViews (tget p (Tree syncPoint cs)) (tget p (Tree ?own cs))"
          using own by (cases p) (simp_all add: option.rel_refl sameViews_refl)
      qed
    next
      case (Some childTree)
      show ?thesis
      proof (cases "operationForChild env operation ?k")
        case None
        then have eq: "snd (applyOperationHelper env operation (Tree syncPoint cs) serverCache
            writesCache) = Tree ?own cs"
          unfolding applyOperationHelper_tree using False Some by simp
        show ?thesis unfolding eq sameTree_def
        proof
          fix p
          show "rel_option sameViews (tget p (Tree syncPoint cs)) (tget p (Tree ?own cs))"
            using own by (cases p) (simp_all add: option.rel_refl sameViews_refl)
        qed
      next
        case cop: (Some childOp)
        let ?child = "snd (applyOperationHelper env childOp childTree
                         (childServerCacheOf env ?sc ?k) (refChild writesCache ?k))"
        have eq: "snd (applyOperationHelper env operation (Tree syncPoint cs) serverCache
            writesCache) = Tree ?own (AList.update ?k ?child cs)"
          unfolding applyOperationHelper_tree using False Some cop by simp
        have ih: "sameTree childTree ?child"
          using "1.IH" [OF False refl refl refl Some cop refl refl] by simp
        show ?thesis unfolding eq sameTree_def
        proof
          fix p
          show "rel_option sameViews (tget p (Tree syncPoint cs))
              (tget p (Tree ?own (AList.update ?k ?child cs)))"
          proof (cases p)
            case Nil
            then show ?thesis using own by simp
          next
            case (Cons front rest)
            show ?thesis
            proof (cases "front = ?k")
              case True
              then show ?thesis
                using ih Some unfolding Cons by (simp add: update_conv' sameTree_def)
            next
              case False
              then show ?thesis
                unfolding Cons
                by (simp add: update_conv' option.rel_refl sameViews_refl split: option.split)
            qed
          qed
        qed
      qed
    qed
  qed
qed

lemma sameViews_entries: "sameViews sp sp' \<Longrightarrow> spEntries sp = spEntries sp'"
proof -
  assume "sameViews sp sp'"
  then have "map ((\<lambda>x. (fst x, fst (snd x))) \<circ> viewShape) sp
      = map ((\<lambda>x. (fst x, fst (snd x))) \<circ> viewShape) sp'"
    unfolding sameViews_def map_map [symmetric] by simp
  then have "map (\<lambda>kv. (fst kv, getQuery (snd kv))) sp = map (\<lambda>kv. (fst kv, getQuery (snd kv))) sp'"
    by (simp add: comp_def viewShape_def)
  then have "set (map (\<lambda>kv. (fst kv, getQuery (snd kv))) sp)
      = set (map (\<lambda>kv. (fst kv, getQuery (snd kv))) sp')" by simp
  then show ?thesis by (simp add: spEntries_def)
qed

lemma sameViews_shape:
  assumes "sameViews sp sp'"
    and "distinct (map fst sp) \<and> sp \<noteq> [] \<and> (\<forall>kv \<in> set sp. eventRegistrations (snd kv) \<noteq> [])"
  shows "distinct (map fst sp') \<and> sp' \<noteq> [] \<and> (\<forall>kv \<in> set sp'. eventRegistrations (snd kv) \<noteq> [])"
proof -
  have m: "map viewShape sp = map viewShape sp'" using assms(1) by (simp add: sameViews_def)
  have "map (fst \<circ> viewShape) sp = map (fst \<circ> viewShape) sp'"
    using m unfolding map_map [symmetric] by simp
  then have k: "map fst sp = map fst sp'" by (simp add: comp_def viewShape_def)
  have "map ((\<lambda>x. snd (snd x)) \<circ> viewShape) sp = map ((\<lambda>x. snd (snd x)) \<circ> viewShape) sp'"
    using m unfolding map_map [symmetric] by simp
  then have "map (\<lambda>kv. eventRegistrations (snd kv)) sp = map (\<lambda>kv. eventRegistrations (snd kv)) sp'"
    by (simp add: comp_def viewShape_def)
  then have "set (map (\<lambda>kv. eventRegistrations (snd kv)) sp)
      = set (map (\<lambda>kv. eventRegistrations (snd kv)) sp')" by simp
  then have r: "(\<lambda>kv. eventRegistrations (snd kv)) ` set sp
      = (\<lambda>kv. eventRegistrations (snd kv)) ` set sp'" by simp
  have "sp' \<noteq> []" using k assms(2) by auto
  moreover have "distinct (map fst sp')" using k assms(2) by simp
  moreover have "\<forall>kv \<in> set sp'. eventRegistrations (snd kv) \<noteq> []"
  proof
    fix kv assume "kv \<in> set sp'"
    then have "eventRegistrations (snd kv) \<in> (\<lambda>kv. eventRegistrations (snd kv)) ` set sp"
      unfolding r by (rule imageI)
    then show "eventRegistrations (snd kv) \<noteq> []" using assms(2) by auto
  qed
  ultimately show ?thesis by simp
qed

lemma sameTree_entries: "sameTree t t' \<Longrightarrow> viewEntries t = viewEntries t'"
proof -
  assume st: "sameTree t t'"
  have "(\<exists>sp. tget p t = Some sp \<and> e \<in> spEntries sp)
      = (\<exists>sp. tget p t' = Some sp \<and> e \<in> spEntries sp)" for p e
  proof -
    have r: "rel_option sameViews (tget p t) (tget p t')" using st by (simp add: sameTree_def)
    show ?thesis
    proof (cases "tget p t")
      case None
      then show ?thesis using r by (cases "tget p t'") simp_all
    next
      case (Some sp)
      then obtain sp' where "tget p t' = Some sp'" and "sameViews sp sp'"
        using r by (cases "tget p t'") simp_all
      then show ?thesis using Some sameViews_entries by fastforce
    qed
  qed
  then show ?thesis unfolding viewEntries_alt by simp
qed

lemma sameTree_invariant:
  assumes st: "sameTree (syncPointTree s) (syncPointTree s')"
    and maps: "tagToQueryMap s' = tagToQueryMap s" "queryToTagMap s' = queryToTagMap s"
      "nextQueryTag s' = nextQueryTag s"
    and inv: "registryInvariant s"
  shows "registryInvariant s'"
proof -
  have e: "viewEntries (syncPointTree s') = viewEntries (syncPointTree s)"
    using sameTree_entries [OF st] by simp
  have shape: "treeShape s'"
    unfolding treeShape_def
  proof (intro allI impI)
    fix p sp'
    assume g: "tget p (syncPointTree s') = Some sp'"
    have r: "rel_option sameViews (tget p (syncPointTree s)) (tget p (syncPointTree s'))"
      using st by (simp add: sameTree_def)
    then obtain sp where sp: "tget p (syncPointTree s) = Some sp" and sv: "sameViews sp sp'"
      using g by (cases "tget p (syncPointTree s)") simp_all
    have "distinct (map fst sp) \<and> sp \<noteq> [] \<and> (\<forall>kv \<in> set sp. eventRegistrations (snd kv) \<noteq> [])"
      using inv sp by (simp add: registryInvariant_def treeShape_def)
    then show "distinct (map fst sp') \<and> sp' \<noteq> []
        \<and> (\<forall>kv \<in> set sp'. eventRegistrations (snd kv) \<noteq> [])"
      using sameViews_shape [OF sv] by simp
  qed
  show ?thesis
    using inv shape
    unfolding registryInvariant_def tagsInverse_def tagsFresh_def viewsTagged_def tagsViewed_def
      keysUnique_def e maps
    by simp
qed

lemma applyOperationToSyncPoints_preserves:
  assumes "registryInvariant s"
  shows "registryInvariant (snd (applyOperationToSyncPoints env operation s))"
  by (rule sameTree_invariant [OF _ _ _ _ assms])
    (simp_all add: applyOperationToSyncPoints_def Let_def helper_sameTree)

lemma pending_preserves:
  assumes "registryInvariant s"
  shows "registryInvariant (s\<lparr>pendingWriteTree := w\<rparr>)"
  by (rule sameTree_invariant [OF _ _ _ _ assms]) (simp_all add: sameTree_refl)

lemma applyTaggedOperation_preserves:
  assumes "applyTaggedOperation env queryPath queryId operation s = Inr (events, s')"
    and "registryInvariant s"
  shows "registryInvariant s'"
proof -
  obtain sp where sp: "tget queryPath (syncPointTree s) = Some sp"
    using assms(1) by (cases "tget queryPath (syncPointTree s)")
      (simp_all add: applyTaggedOperation_def)
  let ?sp' = "snd (spApplyOperation env sp operation
                (childWrites queryPath (pendingWriteTree s)) None)"
  have s': "s' = s\<lparr>syncPointTree := tset queryPath ?sp' (syncPointTree s)\<rparr>"
    using assms(1) sp by (simp add: applyTaggedOperation_def Let_def)
  have "sameTree (syncPointTree s) (tset queryPath ?sp' (syncPointTree s))"
    unfolding sameTree_def
    using sp by (simp add: tget_tset option.rel_refl sameViews_refl spApplyOperation_sameViews)
  then have "sameTree (syncPointTree s) (syncPointTree s')" by (simp add: s')
  then show ?thesis
    by (rule sameTree_invariant [OF _ _ _ _ assms(2)]) (simp_all add: s')
qed

subsection \<open>Every state a Sync Tree is in\<close>

lemma applyUserOverwrite_preserves:
  assumes "applyUserOverwrite env p newData wid vis s = (events, s')" and "registryInvariant s"
  shows "registryInvariant s'"
proof -
  let ?s1 = "s\<lparr>pendingWriteTree := addOverwrite p newData wid vis (pendingWriteTree s)\<rparr>"
  have i1: "registryInvariant ?s1" using assms(2) by (rule pending_preserves)
  show ?thesis
  proof (cases vis)
    case True
    then have "s' = snd (applyOperationToSyncPoints env (Overwrite User p newData) ?s1)"
      using assms(1) by (simp add: applyUserOverwrite_def Let_def)
    then show ?thesis using applyOperationToSyncPoints_preserves [OF i1] by simp
  next
    case False
    then have "s' = ?s1" using assms(1) by (simp add: applyUserOverwrite_def Let_def)
    then show ?thesis using i1 by simp
  qed
qed

lemma applyUserMerge_preserves:
  assumes "applyUserMerge env p changedChildren wid s = (events, s')" and "registryInvariant s"
  shows "registryInvariant s'"
proof -
  let ?s1 = "s\<lparr>pendingWriteTree := addMerge p changedChildren wid (pendingWriteTree s)\<rparr>"
  have i1: "registryInvariant ?s1" using assms(2) by (rule pending_preserves)
  have "s' = snd (applyOperationToSyncPoints env (Merge User p (fromObject changedChildren)) ?s1)"
    using assms(1) by (simp add: applyUserMerge_def Let_def)
  then show ?thesis using applyOperationToSyncPoints_preserves [OF i1] by simp
qed

lemma ackUserWrite_preserves:
  assumes step: "ackUserWrite env wid revert s = Inr (events, s')" and inv: "registryInvariant s"
  shows "registryInvariant s'"
proof (cases "removeWrite wid (pendingWriteTree s)")
  case (Inl e)
  then show ?thesis using step by (simp add: ackUserWrite_def Let_def)
next
  case (Inr r)
  obtain needToReevaluate wt' where r: "r = (needToReevaluate, wt')" by (cases r)
  let ?s1 = "s\<lparr>pendingWriteTree := wt'\<rparr>"
  have i1: "registryInvariant ?s1" using inv by (rule pending_preserves)
  show ?thesis
  proof (cases needToReevaluate)
    case False
    then have "s' = ?s1" using step Inr r by (simp add: ackUserWrite_def Let_def)
    then show ?thesis using i1 by simp
  next
    case True
    then obtain w where "getWrite wid (pendingWriteTree s) = Some w"
      and "s' = snd (applyOperationToSyncPoints env
                       (AckUserWrite (wpath w) (affectedTreeOf w) revert) ?s1)"
      using step Inr r
      by (cases "getWrite wid (pendingWriteTree s)") (simp_all add: ackUserWrite_def Let_def)
    then show ?thesis using applyOperationToSyncPoints_preserves [OF i1] by simp
  qed
qed

lemma applyOperationToSyncPoints_step:
  assumes "applyOperationToSyncPoints env operation s = (events, s')" and "registryInvariant s"
  shows "registryInvariant s'"
proof -
  have "s' = snd (applyOperationToSyncPoints env operation s)" using assms(1) by simp
  then show ?thesis using applyOperationToSyncPoints_preserves [OF assms(2)] by simp
qed

lemma applyServer_preserves:
  assumes "registryInvariant s"
  shows "applyServerOverwrite env p newData s = (events, s') \<Longrightarrow> registryInvariant s'"
    and "applyServerMerge env p changedChildren s = (events, s') \<Longrightarrow> registryInvariant s'"
    and "applyListenComplete env p s = (events, s') \<Longrightarrow> registryInvariant s'"
  unfolding applyServerOverwrite_def applyServerMerge_def applyListenComplete_def
  using applyOperationToSyncPoints_step [OF _ assms] by blast+

lemma applyTagged_preserves:
  assumes inv: "registryInvariant s"
  shows "applyTaggedQueryOverwrite env p newData tag s = Inr (events, s') \<Longrightarrow> registryInvariant s'"
    and "applyTaggedQueryMerge env p changedChildren tag s = Inr (events, s')
         \<Longrightarrow> registryInvariant s'"
    and "applyTaggedListenComplete env p tag s = Inr (events, s') \<Longrightarrow> registryInvariant s'"
  using inv applyTaggedOperation_preserves [OF _ inv, of env]
  by (auto simp: applyTaggedQueryOverwrite_def applyTaggedQueryMerge_def
      applyTaggedListenComplete_def
      split: option.splits sum.splits prod.splits if_splits)

lemma reachable_invariant: "reachable env s \<Longrightarrow> registryInvariant s"
proof (induction rule: reachable.induct)
  case new
  show ?case by (rule registryInvariant_new)
next
  case (added s q registration events s')
  from added.hyps(2) added.IH show ?case by (rule add_preserves)
next
  case (removed s q registration cancelError events s')
  from removed.hyps(2) removed.IH show ?case by (rule remove_preserves)
next
  case (userOverwrite s p newData wid vis events s')
  from userOverwrite.hyps(2) userOverwrite.IH show ?case by (rule applyUserOverwrite_preserves)
next
  case (userMerge s p changedChildren wid events s')
  from userMerge.hyps(2) userMerge.IH show ?case by (rule applyUserMerge_preserves)
next
  case (acked s wid revert events s')
  from acked.hyps(2) acked.IH show ?case by (rule ackUserWrite_preserves)
next
  case (serverOverwrite s p newData events s')
  from serverOverwrite.IH serverOverwrite.hyps(2) show ?case by (rule applyServer_preserves(1))
next
  case (serverMerge s p changedChildren events s')
  from serverMerge.IH serverMerge.hyps(2) show ?case by (rule applyServer_preserves(2))
next
  case (listenComplete s p events s')
  from listenComplete.IH listenComplete.hyps(2) show ?case by (rule applyServer_preserves(3))
next
  case (taggedOverwrite s p newData tag events s')
  from taggedOverwrite.IH taggedOverwrite.hyps(2) show ?case by (rule applyTagged_preserves(1))
next
  case (taggedMerge s p changedChildren tag events s')
  from taggedMerge.IH taggedMerge.hyps(2) show ?case by (rule applyTagged_preserves(2))
next
  case (taggedListenComplete s p tag events s')
  from taggedListenComplete.IH taggedListenComplete.hyps(2) show ?case
    by (rule applyTagged_preserves(3))
qed

lemma stateDefaultAtA_limit_registered:
  "addEventRegistration unitEnv limitAtA 2 stateDefaultAtA = Inr ([''value''], stateDefaultThenLimit)"
  by (simp add: addEventRegistration_def foreachOnPath_def Empty_def
      limitAtA_def defaultAtA_def stateDefaultAtA_def defaultViewAtA_def stateDefaultThenLimit_def
      bothViewsAtA_def unitEnv_def Let_def
      viewExistsForQuery_def viewForQuery_def getCompleteView_def spAddEventRegistration_def
      assembledServerCache_def foreachChild_def childWrites_def
      makeQueryKey_def pathToString_def hasCompleteView_def getCompleteServerCache_def fun_eq_iff)

lemma reachable_stateLimitAtA: "reachable unitEnv stateLimitAtA"
  using reachable.added [OF reachable.new newSyncTree_limit_registered] .

lemma reachable_stateDefaultThenLimit: "reachable unitEnv stateDefaultThenLimit"
  using reachable.added [OF reachable.added [OF reachable.new newSyncTree_default_registered]
      stateDefaultAtA_limit_registered] .

lemma reachable_stateDefaultAtA: "reachable unitEnv stateDefaultAtA"
  using reachable.added [OF reachable.new newSyncTree_default_registered] .

lemma hasCompleteView_append: "hasCompleteView sp \<Longrightarrow> hasCompleteView (sp @ others)"
  by (auto simp: hasCompleteView_def getCompleteView_def find_None_iff)

lemma add_filtered_beside_complete_view:
  assumes "tget (qpath q) (syncPointTree s) = Some sp"
    and "hasCompleteView sp"
    and "\<not> loadsAllData q"
    and "\<not> viewExistsForQuery sp q"
    and "queryToTagMap s (makeQueryKey q) = None"
  shows "\<exists>events s' v.
           addEventRegistration env q registration s = Inr (events, s')
         \<and> queryToTagMap s' = (queryToTagMap s)(makeQueryKey q \<mapsto> nextQueryTag s)
         \<and> tagToQueryMap s' = (tagToQueryMap s)(nextQueryTag s \<mapsto> makeQueryKey q)
         \<and> nextQueryTag s' = nextQueryTag s + 1
         \<and> tget (qpath q) (syncPointTree s') = Some (sp @ [(queryIdentifier q, v)])
         \<and> getQuery v = q
         \<and> eventRegistrations v = [registration]
         \<and> listenProvider s' = listenProvider s"
proof -
  obtain c where w: "ancestorWalk env (qpath q) (foreachOnPath (qpath q) (syncPointTree s)) (None, False)
        = Inr (c, list_ex (\<lambda>x. hasCompleteView (snd x)) (foreachOnPath (qpath q) (syncPointTree s)))"
    using ancestorWalk_foreachOnPath by blast
  have none: "map_of sp (queryIdentifier q) = None"
    using assms(3,4) by (simp add: viewExistsForQuery_def viewForQuery_def)
  have sp': "snd (spAddEventRegistration env sp q registration w' c' b')
             = sp @ [(queryIdentifier q,
                      \<lparr>getQuery = q, eventRegistrations = [registration],
                        viewCache = newViewCache env q w' c' b'\<rparr>)]" for w' c' b'
    using none by (simp add: spAddEventRegistration_def Let_def update_absent)
  show ?thesis
    using assms w none
    by (simp add: addEventRegistration_def Let_def tget_tset viewExistsForQuery_def
        viewForQuery_def sp')
qed

text \<open>
  C4: in every state a Sync Tree reaches (by \<^verbatim>\<open>addEventRegistration\<close> and
  \<^verbatim>\<open>removeEventRegistration\<close>, and by the functions that apply writes and server
  data too), the tag maps are inverse to each other: a tag \<^verbatim>\<open>t\<close> with
  \<^verbatim>\<open>tagToQueryMap_[t] = k\<close> has \<^verbatim>\<open>queryToTagMap_[k] = t\<close>, and the other way
  round; and \<^verbatim>\<open>k\<close> is the key of the query of a view in the tree, a query that does
  not load all data.
\<close>

theorem tag_maps_mutually_inverse:
  assumes "reachable env s"
  shows "(\<forall>t k. tagToQueryMap s t = Some k \<longrightarrow>
            queryToTagMap s k = Some t
          \<and> (\<exists>p sp i v. tget p (syncPointTree s) = Some sp \<and> (i, v) \<in> set sp
                \<and> makeQueryKey (getQuery v) = k \<and> \<not> loadsAllData (getQuery v)))
       \<and> (\<forall>k t. queryToTagMap s k = Some t \<longrightarrow> tagToQueryMap s t = Some k)"
proof -
  have inv: "registryInvariant s" using assms by (rule reachable_invariant)
  then have i: "\<And>t k. (tagToQueryMap s t = Some k) = (queryToTagMap s k = Some t)"
    and v: "tagsViewed s"
    by (simp_all add: registryInvariant_def tagsInverse_def)
  have "\<exists>p sp i v. tget p (syncPointTree s) = Some sp \<and> (i, v) \<in> set sp
                \<and> makeQueryKey (getQuery v) = k \<and> \<not> loadsAllData (getQuery v)"
    if "queryToTagMap s k = Some t" for k t
    using v that unfolding tagsViewed_def viewEntries_def by blast
  then show ?thesis using i by blast
qed

theorem tag_maps_mutually_inverse_witness:
  "reachable unitEnv stateLimitAtA
   \<and> tagToQueryMap stateLimitAtA 1 = Some ''/a${l:5}''
   \<and> queryToTagMap stateLimitAtA ''/a${l:5}'' = Some 1
   \<and> (\<exists>p sp i v. tget p (syncPointTree stateLimitAtA) = Some sp \<and> (i, v) \<in> set sp
         \<and> makeQueryKey (getQuery v) = ''/a${l:5}'' \<and> \<not> loadsAllData (getQuery v))"
proof -
  have t: "tagToQueryMap stateLimitAtA 1 = Some ''/a${l:5}''" by (simp add: stateLimitAtA_def)
  show ?thesis
    using tag_maps_mutually_inverse [OF reachable_stateLimitAtA] reachable_stateLimitAtA t
    by blast
qed

text \<open>
  C5, as stated, fails: registering the default query at \<^verbatim>\<open>/a\<close> and then a query
  with a limit at \<^verbatim>\<open>/a\<close> leaves a Sync Point with a complete view and a filtered
  view whose tag is in both maps.
\<close>

theorem complete_view_leaves_filtered_tag_counterexample:
  "reachable unitEnv stateDefaultThenLimit
   \<and> addEventRegistration unitEnv defaultAtA 1 newSyncTree = Inr ([''value''], stateDefaultAtA)
   \<and> addEventRegistration unitEnv limitAtA 2 stateDefaultAtA = Inr ([''value''], stateDefaultThenLimit)
   \<and> tget [''a''] (syncPointTree stateDefaultThenLimit) = Some bothViewsAtA
   \<and> hasCompleteView bothViewsAtA
   \<and> map_of bothViewsAtA ''{l:5}''
       = Some \<lparr>getQuery = limitAtA, eventRegistrations = [2], viewCache = ()\<rparr>
   \<and> \<not> loadsAllData limitAtA
   \<and> queryToTagMap stateDefaultThenLimit (makeQueryKey limitAtA) = Some 1
   \<and> tagToQueryMap stateDefaultThenLimit 1 = Some (makeQueryKey limitAtA)"
  using reachable_stateDefaultThenLimit newSyncTree_default_registered
    stateDefaultAtA_limit_registered
  by (simp add: stateDefaultThenLimit_def bothViewsAtA_def hasCompleteView_def
      getCompleteView_def defaultAtA_def limitAtA_def makeQueryKey_def pathToString_def)

text \<open>
  C5, amended: in every state a Sync Tree reaches, every filtered view in the tree,
  whether its Sync Point has a complete view or not, has its tag: \<^verbatim>\<open>queryToTagMap_\<close>
  has a tag under the key of the view's query, and \<^verbatim>\<open>tagToQueryMap_\<close> has that key
  under the tag. In particular, \<^verbatim>\<open>addEventRegistration\<close> of a filtered query that has
  no view yet, at a path whose Sync Point has a complete view: unless the assertion on
  the tag map fails, it returns a state the Sync Tree reaches, in which the next tag,
  which no query had, is entered in both maps under the query's key, the query's view is
  in the Sync Point beside the complete view, and the listen provider has received no
  call.
\<close>

theorem filtered_views_keep_their_tags:
  assumes "reachable env s"
  shows "(\<forall>p sp i v. tget p (syncPointTree s) = Some sp \<longrightarrow> (i, v) \<in> set sp \<longrightarrow>
            \<not> loadsAllData (getQuery v) \<longrightarrow>
            (\<exists>t. queryToTagMap s (makeQueryKey (getQuery v)) = Some t
                \<and> tagToQueryMap s t = Some (makeQueryKey (getQuery v))))
       \<and> (\<forall>q registration sp.
            tget (qpath q) (syncPointTree s) = Some sp \<longrightarrow> hasCompleteView sp \<longrightarrow>
            \<not> loadsAllData q \<longrightarrow> \<not> viewExistsForQuery sp q \<longrightarrow>
            (if queryToTagMap s (makeQueryKey q) \<noteq> None
             then addEventRegistration env q registration s = Inl ViewDoesNotExistButWeHaveATag
             else tagToQueryMap s (nextQueryTag s) = None
                \<and> (\<exists>events s' v.
                      addEventRegistration env q registration s = Inr (events, s')
                    \<and> reachable env s'
                    \<and> queryToTagMap s' (makeQueryKey q) = Some (nextQueryTag s)
                    \<and> tagToQueryMap s' (nextQueryTag s) = Some (makeQueryKey q)
                    \<and> tget (qpath q) (syncPointTree s') = Some (sp @ [(queryIdentifier q, v)])
                    \<and> hasCompleteView (sp @ [(queryIdentifier q, v)])
                    \<and> getQuery v = q
                    \<and> listenProvider s' = listenProvider s)))"
proof -
  have inv: "registryInvariant s" using assms by (rule reachable_invariant)
  then have i: "\<And>t k. (tagToQueryMap s t = Some k) = (queryToTagMap s k = Some t)"
    and tg: "viewsTagged s" and fresh: "tagsFresh s"
    by (simp_all add: registryInvariant_def tagsInverse_def)
  have kept: "\<exists>t. queryToTagMap s (makeQueryKey (getQuery v)) = Some t
                \<and> tagToQueryMap s t = Some (makeQueryKey (getQuery v))"
    if "tget p (syncPointTree s) = Some sp" and "(i, v) \<in> set sp"
      and "\<not> loadsAllData (getQuery v)" for p sp i v
  proof -
    have "(p, i, getQuery v) \<in> viewEntries (syncPointTree s)"
      using that(1,2) unfolding viewEntries_def by blast
    then have "queryToTagMap s (makeQueryKey (getQuery v)) \<noteq> None"
      using tg that(3) unfolding viewsTagged_def by blast
    then show ?thesis using i by auto
  qed
  have unused: "tagToQueryMap s (nextQueryTag s) = None"
  proof (cases "tagToQueryMap s (nextQueryTag s)")
    case None
    then show ?thesis .
  next
    case (Some k)
    then have "queryToTagMap s k = Some (nextQueryTag s)" using i by simp
    then have "nextQueryTag s < nextQueryTag s" using fresh unfolding tagsFresh_def by blast
    then show ?thesis by simp
  qed
  have added: "if queryToTagMap s (makeQueryKey q) \<noteq> None
       then addEventRegistration env q registration s = Inl ViewDoesNotExistButWeHaveATag
       else tagToQueryMap s (nextQueryTag s) = None
          \<and> (\<exists>events s' v.
                addEventRegistration env q registration s = Inr (events, s')
              \<and> reachable env s'
              \<and> queryToTagMap s' (makeQueryKey q) = Some (nextQueryTag s)
              \<and> tagToQueryMap s' (nextQueryTag s) = Some (makeQueryKey q)
              \<and> tget (qpath q) (syncPointTree s') = Some (sp @ [(queryIdentifier q, v)])
              \<and> hasCompleteView (sp @ [(queryIdentifier q, v)])
              \<and> getQuery v = q
              \<and> listenProvider s' = listenProvider s)"
    if h: "tget (qpath q) (syncPointTree s) = Some sp" "hasCompleteView sp"
      "\<not> loadsAllData q" "\<not> viewExistsForQuery sp q" for q registration sp
  proof (cases "queryToTagMap s (makeQueryKey q)")
    case (Some t)
    obtain c where w: "ancestorWalk env (qpath q) (foreachOnPath (qpath q) (syncPointTree s))
          (None, False)
        = Inr (c, list_ex (\<lambda>x. hasCompleteView (snd x)) (foreachOnPath (qpath q) (syncPointTree s)))"
      using ancestorWalk_foreachOnPath by blast
    have "addEventRegistration env q registration s = Inl ViewDoesNotExistButWeHaveATag"
      using h Some w by (simp add: addEventRegistration_def Let_def)
    then show ?thesis using Some by simp
  next
    case None
    obtain events s' v where
      step: "addEventRegistration env q registration s = Inr (events, s')"
      and q2t: "queryToTagMap s' = (queryToTagMap s)(makeQueryKey q \<mapsto> nextQueryTag s)"
      and t2q: "tagToQueryMap s' = (tagToQueryMap s)(nextQueryTag s \<mapsto> makeQueryKey q)"
      and at: "tget (qpath q) (syncPointTree s') = Some (sp @ [(queryIdentifier q, v)])"
      and gq: "getQuery v = q"
      and lp: "listenProvider s' = listenProvider s"
      using add_filtered_beside_complete_view [OF h None, of env registration] by blast
    have r: "reachable env s'" using assms step by (rule reachable.added)
    have c: "hasCompleteView (sp @ [(queryIdentifier q, v)])"
      using h(2) by (rule hasCompleteView_append)
    have "\<exists>events s' v.
                addEventRegistration env q registration s = Inr (events, s')
              \<and> reachable env s'
              \<and> queryToTagMap s' (makeQueryKey q) = Some (nextQueryTag s)
              \<and> tagToQueryMap s' (nextQueryTag s) = Some (makeQueryKey q)
              \<and> tget (qpath q) (syncPointTree s') = Some (sp @ [(queryIdentifier q, v)])
              \<and> hasCompleteView (sp @ [(queryIdentifier q, v)])
              \<and> getQuery v = q
              \<and> listenProvider s' = listenProvider s"
      using step r q2t t2q at c gq lp by auto
    then show ?thesis using None unused by simp
  qed
  show ?thesis
  proof (intro conjI allI impI)
    fix p sp i v
    assume "tget p (syncPointTree s) = Some sp" "(i, v) \<in> set sp" "\<not> loadsAllData (getQuery v)"
    then show "\<exists>t. queryToTagMap s (makeQueryKey (getQuery v)) = Some t
                \<and> tagToQueryMap s t = Some (makeQueryKey (getQuery v))"
      by (rule kept)
  next
    fix q registration sp
    assume "tget (qpath q) (syncPointTree s) = Some sp" "hasCompleteView sp"
      "\<not> loadsAllData q" "\<not> viewExistsForQuery sp q"
    then show "if queryToTagMap s (makeQueryKey q) \<noteq> None
       then addEventRegistration env q registration s = Inl ViewDoesNotExistButWeHaveATag
       else tagToQueryMap s (nextQueryTag s) = None
          \<and> (\<exists>events s' v.
                addEventRegistration env q registration s = Inr (events, s')
              \<and> reachable env s'
              \<and> queryToTagMap s' (makeQueryKey q) = Some (nextQueryTag s)
              \<and> tagToQueryMap s' (nextQueryTag s) = Some (makeQueryKey q)
              \<and> tget (qpath q) (syncPointTree s') = Some (sp @ [(queryIdentifier q, v)])
              \<and> hasCompleteView (sp @ [(queryIdentifier q, v)])
              \<and> getQuery v = q
              \<and> listenProvider s' = listenProvider s)"
      by (rule added)
  qed
qed

theorem filtered_views_keep_their_tags_witness:
  "reachable unitEnv stateLimitAtA
   \<and> tget [''a''] (syncPointTree stateLimitAtA) = Some limitViewAtA
   \<and> \<not> hasCompleteView limitViewAtA
   \<and> (''{l:5}'', \<lparr>getQuery = limitAtA, eventRegistrations = [1], viewCache = ()\<rparr>)
        \<in> set limitViewAtA
   \<and> \<not> loadsAllData limitAtA
   \<and> (\<exists>t. queryToTagMap stateLimitAtA (makeQueryKey limitAtA) = Some t
          \<and> tagToQueryMap stateLimitAtA t = Some (makeQueryKey limitAtA))
   \<and> reachable unitEnv stateDefaultAtA
   \<and> tget (qpath limitAtA) (syncPointTree stateDefaultAtA) = Some defaultViewAtA
   \<and> hasCompleteView defaultViewAtA
   \<and> \<not> viewExistsForQuery defaultViewAtA limitAtA
   \<and> queryToTagMap stateDefaultAtA (makeQueryKey limitAtA) = None
   \<and> tagToQueryMap stateDefaultAtA (nextQueryTag stateDefaultAtA) = None
   \<and> (\<exists>events s' v.
          addEventRegistration unitEnv limitAtA 2 stateDefaultAtA = Inr (events, s')
        \<and> reachable unitEnv s'
        \<and> queryToTagMap s' (makeQueryKey limitAtA) = Some (nextQueryTag stateDefaultAtA)
        \<and> tagToQueryMap s' (nextQueryTag stateDefaultAtA) = Some (makeQueryKey limitAtA)
        \<and> tget (qpath limitAtA) (syncPointTree s')
            = Some (defaultViewAtA @ [(queryIdentifier limitAtA, v)])
        \<and> hasCompleteView (defaultViewAtA @ [(queryIdentifier limitAtA, v)])
        \<and> getQuery v = limitAtA
        \<and> listenProvider s' = listenProvider stateDefaultAtA)"
proof -
  have g1: "tget [''a''] (syncPointTree stateLimitAtA) = Some limitViewAtA"
    by (simp add: stateLimitAtA_def)
  have g2: "\<not> hasCompleteView limitViewAtA"
    by (simp add: limitViewAtA_def hasCompleteView_def getCompleteView_def limitAtA_def)
  have g3: "(''{l:5}'', \<lparr>getQuery = limitAtA, eventRegistrations = [1], viewCache = ()\<rparr>)
      \<in> set limitViewAtA"
    by (simp add: limitViewAtA_def)
  have g4: "\<not> loadsAllData (getQuery \<lparr>getQuery = limitAtA, eventRegistrations = [1::nat],
      viewCache = ()\<rparr>)"
    by (simp add: limitAtA_def)
  have h1: "tget (qpath limitAtA) (syncPointTree stateDefaultAtA) = Some defaultViewAtA"
    by (simp add: limitAtA_def stateDefaultAtA_def)
  have h2: "hasCompleteView defaultViewAtA"
    by (simp add: hasCompleteView_def getCompleteView_def defaultViewAtA_def defaultAtA_def)
  have h3: "\<not> loadsAllData limitAtA" by (simp add: limitAtA_def)
  have h4: "\<not> viewExistsForQuery defaultViewAtA limitAtA"
    by (simp add: viewExistsForQuery_def viewForQuery_def defaultViewAtA_def limitAtA_def)
  have h5: "queryToTagMap stateDefaultAtA (makeQueryKey limitAtA) = None"
    by (simp add: stateDefaultAtA_def)
  have kept: "\<exists>t. queryToTagMap stateLimitAtA (makeQueryKey limitAtA) = Some t
          \<and> tagToQueryMap stateLimitAtA t = Some (makeQueryKey limitAtA)"
    using filtered_views_keep_their_tags [OF reachable_stateLimitAtA] g1 g3 g4 by fastforce
  have added: "tagToQueryMap stateDefaultAtA (nextQueryTag stateDefaultAtA) = None
   \<and> (\<exists>events s' v.
          addEventRegistration unitEnv limitAtA 2 stateDefaultAtA = Inr (events, s')
        \<and> reachable unitEnv s'
        \<and> queryToTagMap s' (makeQueryKey limitAtA) = Some (nextQueryTag stateDefaultAtA)
        \<and> tagToQueryMap s' (nextQueryTag stateDefaultAtA) = Some (makeQueryKey limitAtA)
        \<and> tget (qpath limitAtA) (syncPointTree s')
            = Some (defaultViewAtA @ [(queryIdentifier limitAtA, v)])
        \<and> hasCompleteView (defaultViewAtA @ [(queryIdentifier limitAtA, v)])
        \<and> getQuery v = limitAtA
        \<and> listenProvider s' = listenProvider stateDefaultAtA)"
    using conjunct2 [OF filtered_views_keep_their_tags [OF reachable_stateDefaultAtA],
        rule_format, OF h1 h2 h3 h4, of 2] h5
    by simp
  show ?thesis
    using reachable_stateLimitAtA reachable_stateDefaultAtA g1 g2 g3 h1 h2 h3 h4 h5 kept added
    by simp
qed

text \<open>
  C8: in every state a Sync Tree reaches, every Sync Point in the tree has a view, and
  each of its views has a registration; and whatever \<^verbatim>\<open>removeEventRegistration\<close> is
  called with, when it returns, the Sync Point at the query's path, if the tree still has
  one, has a view with a registration: one that lost its last registration is gone.
\<close>

theorem sync_points_hold_views:
  assumes "reachable env s"
  shows "(\<forall>p sp. tget p (syncPointTree s) = Some sp \<longrightarrow>
            sp \<noteq> [] \<and> list_all (\<lambda>kv. eventRegistrations (snd kv) \<noteq> []) sp)
       \<and> (\<forall>q registration cancelError sp'.
            tget (qpath q) (syncPointTree
               (snd (removeEventRegistration env q registration cancelError s))) = Some sp' \<longrightarrow>
            sp' \<noteq> [] \<and> list_all (\<lambda>kv. eventRegistrations (snd kv) \<noteq> []) sp')"
proof -
  have shape: "sp \<noteq> [] \<and> list_all (\<lambda>kv. eventRegistrations (snd kv) \<noteq> []) sp"
    if "reachable env x" "tget p (syncPointTree x) = Some sp" for x p sp
  proof -
    have "treeShape x" using that(1) reachable_invariant by (auto simp: registryInvariant_def)
    then show ?thesis using that(2) by (auto simp: treeShape_def list_all_iff)
  qed
  have "reachable env (snd (removeEventRegistration env q registration cancelError s))"
    for q registration cancelError
    using reachable.removed [OF assms, of q registration cancelError] by (metis prod.collapse)
  then show ?thesis using shape assms by blast
qed

theorem sync_points_hold_views_witness:
  "reachable unitEnv stateLimitAtA
   \<and> tget [''a''] (syncPointTree stateLimitAtA) = Some limitViewAtA
   \<and> limitViewAtA \<noteq> []
   \<and> list_all (\<lambda>kv. eventRegistrations (snd kv) \<noteq> []) limitViewAtA
   \<and> tget (qpath limitAtA) (syncPointTree
         (snd (removeEventRegistration unitEnv limitAtA (Some 1) None stateLimitAtA))) = None"
proof -
  have g: "tget [''a''] (syncPointTree stateLimitAtA) = Some limitViewAtA"
    by (simp add: stateLimitAtA_def)
  have r: "tget (qpath limitAtA) (syncPointTree
         (snd (removeEventRegistration unitEnv limitAtA (Some 1) None stateLimitAtA))) = None"
    by (simp add: removeEventRegistration_def stateLimitAtA_def limitAtA_def limitViewAtA_def
        viewExistsForQuery_def viewForQuery_def spRemoveEventRegistration_def removeFromView_def
        viewRemoveEventRegistration_def Let_def spIsEmpty_def hasCompleteView_def
        getCompleteView_def removeTags_def Empty_def isEmpty_def childRemove_def
        findOnPath_def unitEnv_def)
  show ?thesis
    using sync_points_hold_views [OF reachable_stateLimitAtA] reachable_stateLimitAtA g r
    by blast
qed

subsection \<open>The child maps stay sorted\<close>

text \<open>
  Every function that changes the tree keeps its child maps sorted, so in every state a
  Sync Tree reaches each child map holds a key once.
\<close>

lemma sortedKeys_alt:
  "sortedKeys t = (sorted_wrt (<) (map fst (tchildren t))
     \<and> (\<forall>kc \<in> set (tchildren t). sortedKeys (snd kc)))"
  by (cases t) (simp add: list_all_iff)

lemma sortedKeys_distinctKeys: "sortedKeys t \<Longrightarrow> distinctKeys t"
proof (induction t)
  case (Tree v cs)
  have "distinct (map fst cs)" using Tree.prems strict_sorted_iff by auto
  moreover have "distinctKeys (snd kc)" if "kc \<in> set cs" for kc
  proof -
    have "sortedKeys (snd kc)" using Tree.prems that by (simp add: list_all_iff)
    moreover have "snd kc \<in> Basic_BNFs.snds kc" by (cases kc) simp
    ultimately show ?thesis using Tree.IH that by blast
  qed
  ultimately show ?case by (simp add: list_all_iff)
qed

lemma sortedKeys_Empty: "sortedKeys Empty"
  by (simp add: Empty_def)

lemma set_childInsert: "set (childInsert k v cs) \<subseteq> insert (k, v) (set cs)"
  by (induction cs) (auto split: if_splits)

lemma keys_childInsert: "fst ` set (childInsert k v cs) = insert k (fst ` set cs)"
proof (induction cs)
  case Nil
  show ?case by simp
next
  case (Cons kc cs)
  obtain k' v' where kc: "kc = (k', v')" by (cases kc)
  show ?case unfolding kc using Cons.IH by (cases "k = k'"; cases "k < k'") auto
qed

lemma sorted_childInsert:
  "sorted_wrt (<) (map fst cs) \<Longrightarrow> sorted_wrt (<) (map fst (childInsert k v cs))"
proof (induction cs)
  case Nil
  then show ?case by simp
next
  case (Cons kc cs)
  obtain k' v' where kc: "kc = (k', v')" by (cases kc)
  show ?case
  proof (cases "k = k'")
    case True
    then show ?thesis using Cons.prems kc by simp
  next
    case ne: False
    show ?thesis
    proof (cases "k < k'")
      case True
      then show ?thesis using Cons.prems kc ne by auto
    next
      case False
      then have lt: "k' < k" using ne by auto
      have "\<forall>x \<in> fst ` set (childInsert k v cs). k' < x"
        unfolding keys_childInsert using lt Cons.prems kc by auto
      then show ?thesis using Cons kc ne False by auto
    qed
  qed
qed

lemma sorted_childRemove:
  "sorted_wrt (<) (map fst cs) \<Longrightarrow> sorted_wrt (<) (map fst (childRemove k cs))"
  by (induction cs) (auto simp: childRemove_def)

lemma sortedKeys_tset: "sortedKeys t \<Longrightarrow> sortedKeys (tset p x t)"
proof (induction p arbitrary: t)
  case Nil
  then show ?case by (cases t) simp
next
  case (Cons front rest)
  let ?child = "case map_of (tchildren t) front of None \<Rightarrow> Empty | Some c \<Rightarrow> c"
  have "sortedKeys ?child"
  proof (cases "map_of (tchildren t) front")
    case None
    then show ?thesis by (simp add: sortedKeys_Empty)
  next
    case (Some c)
    then have "(front, c) \<in> set (tchildren t)" by (rule map_of_SomeD)
    then show ?thesis using Cons.prems Some sortedKeys_alt [of t] by auto
  qed
  then have new: "sortedKeys (tset rest x ?child)" by (rule Cons.IH)
  have "sortedKeys (snd kc)"
    if "kc \<in> set (childInsert front (tset rest x ?child) (tchildren t))" for kc
    using that set_childInsert [of front "tset rest x ?child" "tchildren t"] new Cons.prems
      sortedKeys_alt [of t] by auto
  then show ?case
    using sorted_childInsert [of "tchildren t" front "tset rest x ?child"] Cons.prems
      sortedKeys_alt [of t]
    by (simp add: Let_def list_all_iff)
qed

lemma sortedKeys_tremove: "sortedKeys t \<Longrightarrow> sortedKeys (tremove p t)"
proof (induction p arbitrary: t)
  case Nil
  then show ?case by (cases t) (simp add: sortedKeys_Empty)
next
  case (Cons front rest)
  show ?case
  proof (cases "map_of (tchildren t) front")
    case None
    then show ?thesis using Cons.prems by simp
  next
    case (Some c)
    then have "(front, c) \<in> set (tchildren t)" by (rule map_of_SomeD)
    then have "sortedKeys c" using Cons.prems sortedKeys_alt [of t] by auto
    then have new: "sortedKeys (tremove rest c)" by (rule Cons.IH)
    let ?new = "if isEmpty (tremove rest c) then childRemove front (tchildren t)
                else childInsert front (tremove rest c) (tchildren t)"
    have s: "sorted_wrt (<) (map fst ?new)"
      using sorted_childInsert [of "tchildren t" front "tremove rest c"]
        sorted_childRemove [of "tchildren t" front] Cons.prems sortedKeys_alt [of t] by simp
    have c: "sortedKeys (snd kc)" if "kc \<in> set ?new" for kc
      using that set_childInsert [of front "tremove rest c" "tchildren t"] new Cons.prems
        sortedKeys_alt [of t]
      by (auto simp: childRemove_def split: if_splits)
    have "sortedKeys (Tree (tvalue t) ?new)" using s c by (simp add: list_all_iff)
    then show ?thesis using Some by (simp add: Let_def sortedKeys_Empty)
  qed
qed

lemma sortedKeys_descendants:
  "sortedKeys t
   \<Longrightarrow> sortedKeys (snd (applyOperationDescendantsHelper env operation t serverCache writesCache))"
proof (induction env operation t serverCache writesCache
    rule: applyOperationDescendantsHelper.induct)
  case (1 env operation syncPoint cs serverCache writesCache)
  let ?sc = "adoptServerCache env serverCache syncPoint"
  let ?f = "\<lambda>kc. case operationForChild env operation (fst kc) of
            None \<Rightarrow> snd kc
          | Some childOperation \<Rightarrow>
              snd (applyOperationDescendantsHelper env childOperation (snd kc)
                     (childServerCacheOf env ?sc (fst kc)) (refChild writesCache (fst kc)))"
  have child: "sortedKeys (?f kc)" if "kc \<in> set cs" for kc
  proof -
    have sk: "sortedKeys (snd kc)" using "1.prems" that by (simp add: list_all_iff)
    show ?thesis
    proof (cases "operationForChild env operation (fst kc)")
      case None
      then show ?thesis using sk by simp
    next
      case (Some childOperation)
      then show ?thesis
        using "1.IH" [OF refl that _ refl refl Some, of "snd kc"] sk by simp
    qed
  qed
  have "map fst (map (\<lambda>kc. (fst kc, ?f kc)) cs) = map fst cs" by (simp add: comp_def)
  then show ?case
    unfolding applyOperationDescendantsHelper_tree
    using "1.prems" child by (simp add: list_all_iff comp_def)
qed

lemma set_update: "set (AList.update k v cs) \<subseteq> insert (k, v) (set cs)"
  by (induction cs) auto

lemma sortedKeys_helper:
  "sortedKeys t
   \<Longrightarrow> sortedKeys (snd (applyOperationHelper env operation t serverCache writesCache))"
proof (induction env operation t serverCache writesCache rule: applyOperationHelper.induct)
  case (1 env operation syncPoint cs serverCache writesCache)
  let ?sc = "adoptServerCache env serverCache syncPoint"
  let ?k = "hd (opPath operation)"
  show ?case
  proof (cases "opPath operation = []")
    case True
    then show ?thesis
      unfolding applyOperationHelper_tree using sortedKeys_descendants [OF "1.prems"] by simp
  next
    case False
    show ?thesis
    proof (cases "map_of cs ?k")
      case None
      then show ?thesis
        unfolding applyOperationHelper_tree using False "1.prems" by simp
    next
      case (Some childTree)
      then have mem: "(?k, childTree) \<in> set cs" by (rule map_of_SomeD)
      then have sk: "sortedKeys childTree" using "1.prems" by (auto simp: list_all_iff)
      show ?thesis
      proof (cases "operationForChild env operation ?k")
        case None
        then show ?thesis
          unfolding applyOperationHelper_tree using False Some "1.prems" by simp
      next
        case cop: (Some childOp)
        let ?child = "snd (applyOperationHelper env childOp childTree
                         (childServerCacheOf env ?sc ?k) (refChild writesCache ?k))"
        have ih: "sortedKeys ?child"
          using "1.IH" [OF False refl refl refl Some cop refl refl] sk by simp
        have "?k \<in> fst ` set cs" using mem by force
        then have keys: "map fst (AList.update ?k ?child cs) = map fst cs"
          by (simp add: update_keys)
        have "sortedKeys (snd kc)" if "kc \<in> set (AList.update ?k ?child cs)" for kc
          using that set_update [of ?k ?child cs] ih "1.prems" by (auto simp: list_all_iff)
        then show ?thesis
          unfolding applyOperationHelper_tree using False Some cop "1.prems" keys
          by (simp add: list_all_iff)
      qed
    qed
  qed
qed

lemma removeTags_tree: "syncPointTree (removeTags qs s) = syncPointTree s"
proof (induction qs arbitrary: s)
  case Nil
  show ?case by (simp add: removeTags_Nil)
next
  case (Cons q qs)
  show ?case unfolding removeTags_Cons Cons.IH by (simp add: removeTag_frame)
qed

lemma add_sortedKeys:
  assumes "addEventRegistration env q registration s = Inr (events, s')"
    and "sortedKeys (syncPointTree s)"
  shows "sortedKeys (syncPointTree s')"
proof -
  obtain serverCache0 found0 where
    walk: "ancestorWalk env (qpath q) (foreachOnPath (qpath q) (syncPointTree s)) (None, False)
           = Inr (serverCache0, found0)"
    using assms(1)
    by (cases "ancestorWalk env (qpath q) (foreachOnPath (qpath q) (syncPointTree s)) (None, False)")
      (auto simp: addEventRegistration_def Let_def)
  show ?thesis
    using assms unfolding addEventRegistration_def Let_def walk
    by (cases "tget (qpath q) (syncPointTree s)")
      (auto split: if_splits option.splits sum.splits dest!: setupListener_frame
        simp: sortedKeys_tset)
qed

lemma remove_sortedKeys:
  assumes "removeEventRegistration env q registration cancelError s = (events, s')"
    and "sortedKeys (syncPointTree s)"
  shows "sortedKeys (syncPointTree s')"
  using assms unfolding removeEventRegistration_def Let_def
  by (auto split: if_splits option.splits simp: removeTags_tree sortedKeys_tset sortedKeys_tremove)

lemma applyOperationToSyncPoints_sortedKeys:
  assumes "sortedKeys (syncPointTree s)"
  shows "sortedKeys (syncPointTree (snd (applyOperationToSyncPoints env operation s)))"
  using assms by (simp add: applyOperationToSyncPoints_def Let_def sortedKeys_helper)

lemma applyOperationToSyncPoints_sortedKeys_step:
  assumes "applyOperationToSyncPoints env operation s = (events, s')"
    and "sortedKeys (syncPointTree s)"
  shows "sortedKeys (syncPointTree s')"
proof -
  have "s' = snd (applyOperationToSyncPoints env operation s)" using assms(1) by simp
  then show ?thesis using applyOperationToSyncPoints_sortedKeys [OF assms(2)] by simp
qed

lemma applyUserOverwrite_sortedKeys:
  assumes "applyUserOverwrite env p newData wid vis s = (events, s')"
    and "sortedKeys (syncPointTree s)"
  shows "sortedKeys (syncPointTree s')"
proof -
  let ?s1 = "s\<lparr>pendingWriteTree := addOverwrite p newData wid vis (pendingWriteTree s)\<rparr>"
  have i1: "sortedKeys (syncPointTree ?s1)" using assms(2) by simp
  show ?thesis
  proof (cases vis)
    case True
    then have "applyOperationToSyncPoints env (Overwrite User p newData) ?s1 = (events, s')"
      using assms(1) by (simp add: applyUserOverwrite_def Let_def)
    then show ?thesis using i1 by (rule applyOperationToSyncPoints_sortedKeys_step)
  next
    case False
    then have "s' = ?s1" using assms(1) by (simp add: applyUserOverwrite_def Let_def)
    then show ?thesis using i1 by simp
  qed
qed

lemma applyUserMerge_sortedKeys:
  assumes "applyUserMerge env p changedChildren wid s = (events, s')"
    and "sortedKeys (syncPointTree s)"
  shows "sortedKeys (syncPointTree s')"
proof -
  let ?s1 = "s\<lparr>pendingWriteTree := addMerge p changedChildren wid (pendingWriteTree s)\<rparr>"
  have i1: "sortedKeys (syncPointTree ?s1)" using assms(2) by simp
  have "applyOperationToSyncPoints env (Merge User p (fromObject changedChildren)) ?s1
      = (events, s')"
    using assms(1) by (simp add: applyUserMerge_def Let_def)
  then show ?thesis using i1 by (rule applyOperationToSyncPoints_sortedKeys_step)
qed

lemma ackUserWrite_sortedKeys:
  assumes step: "ackUserWrite env wid revert s = Inr (events, s')"
    and inv: "sortedKeys (syncPointTree s)"
  shows "sortedKeys (syncPointTree s')"
proof (cases "removeWrite wid (pendingWriteTree s)")
  case (Inl e)
  then show ?thesis using step by (simp add: ackUserWrite_def Let_def)
next
  case (Inr r)
  obtain needToReevaluate wt' where r: "r = (needToReevaluate, wt')" by (cases r)
  let ?s1 = "s\<lparr>pendingWriteTree := wt'\<rparr>"
  have i1: "sortedKeys (syncPointTree ?s1)" using inv by simp
  show ?thesis
  proof (cases needToReevaluate)
    case False
    then have "s' = ?s1" using step Inr r by (simp add: ackUserWrite_def Let_def)
    then show ?thesis using i1 by simp
  next
    case True
    then obtain w where "getWrite wid (pendingWriteTree s) = Some w"
      and "applyOperationToSyncPoints env
             (AckUserWrite (wpath w) (affectedTreeOf w) revert) ?s1 = (events, s')"
      using step Inr r
      by (cases "getWrite wid (pendingWriteTree s)") (simp_all add: ackUserWrite_def Let_def)
    then show ?thesis using i1 applyOperationToSyncPoints_sortedKeys_step by blast
  qed
qed

lemma applyServer_sortedKeys:
  assumes "sortedKeys (syncPointTree s)"
  shows "applyServerOverwrite env p newData s = (events, s') \<Longrightarrow> sortedKeys (syncPointTree s')"
    and "applyServerMerge env p changedChildren s = (events, s')
         \<Longrightarrow> sortedKeys (syncPointTree s')"
    and "applyListenComplete env p s = (events, s') \<Longrightarrow> sortedKeys (syncPointTree s')"
  unfolding applyServerOverwrite_def applyServerMerge_def applyListenComplete_def
  using applyOperationToSyncPoints_sortedKeys_step [OF _ assms] by blast+

lemma applyTaggedOperation_sortedKeys:
  assumes "applyTaggedOperation env queryPath queryId operation s = Inr (events, s')"
    and "sortedKeys (syncPointTree s)"
  shows "sortedKeys (syncPointTree s')"
  using assms
  by (auto simp: applyTaggedOperation_def Let_def sortedKeys_tset split: option.splits)

lemma applyTagged_sortedKeys:
  assumes inv: "sortedKeys (syncPointTree s)"
  shows "applyTaggedQueryOverwrite env p newData tag s = Inr (events, s')
         \<Longrightarrow> sortedKeys (syncPointTree s')"
    and "applyTaggedQueryMerge env p changedChildren tag s = Inr (events, s')
         \<Longrightarrow> sortedKeys (syncPointTree s')"
    and "applyTaggedListenComplete env p tag s = Inr (events, s')
         \<Longrightarrow> sortedKeys (syncPointTree s')"
  using inv applyTaggedOperation_sortedKeys [OF _ inv, of env]
  by (auto simp: applyTaggedQueryOverwrite_def applyTaggedQueryMerge_def
      applyTaggedListenComplete_def
      split: option.splits sum.splits prod.splits if_splits)

lemma reachable_sortedKeys: "reachable env s \<Longrightarrow> sortedKeys (syncPointTree s)"
proof (induction rule: reachable.induct)
  case new
  show ?case by (simp add: newSyncTree_def sortedKeys_Empty)
next
  case (added s q registration events s')
  from added.hyps(2) added.IH show ?case by (rule add_sortedKeys)
next
  case (removed s q registration cancelError events s')
  from removed.hyps(2) removed.IH show ?case by (rule remove_sortedKeys)
next
  case (userOverwrite s p newData wid vis events s')
  from userOverwrite.hyps(2) userOverwrite.IH show ?case by (rule applyUserOverwrite_sortedKeys)
next
  case (userMerge s p changedChildren wid events s')
  from userMerge.hyps(2) userMerge.IH show ?case by (rule applyUserMerge_sortedKeys)
next
  case (acked s wid revert events s')
  from acked.hyps(2) acked.IH show ?case by (rule ackUserWrite_sortedKeys)
next
  case (serverOverwrite s p newData events s')
  from serverOverwrite.IH serverOverwrite.hyps(2) show ?case by (rule applyServer_sortedKeys(1))
next
  case (serverMerge s p changedChildren events s')
  from serverMerge.IH serverMerge.hyps(2) show ?case by (rule applyServer_sortedKeys(2))
next
  case (listenComplete s p events s')
  from listenComplete.IH listenComplete.hyps(2) show ?case by (rule applyServer_sortedKeys(3))
next
  case (taggedOverwrite s p newData tag events s')
  from taggedOverwrite.IH taggedOverwrite.hyps(2) show ?case by (rule applyTagged_sortedKeys(1))
next
  case (taggedMerge s p changedChildren tag events s')
  from taggedMerge.IH taggedMerge.hyps(2) show ?case by (rule applyTagged_sortedKeys(2))
next
  case (taggedListenComplete s p tag events s')
  from taggedListenComplete.IH taggedListenComplete.hyps(2) show ?case
    by (rule applyTagged_sortedKeys(3))
qed

lemma reachable_distinctKeys: "reachable env s \<Longrightarrow> distinctKeys (syncPointTree s)"
  using reachable_sortedKeys sortedKeys_distinctKeys by blast

end
